theory Spec2Isabelle
  imports Complex_Main "HOL-Library.AList"
begin

section \<open>Cart Store\<close>

text \<open>
  The cart of the page script is the JavaScript object \<^verbatim>\<open>cart\<close> (both
  variants of the script, \<^verbatim>\<open>static/js/app.js\<close> and the later one with the
  paged feed, hold the same cart code): its own properties are the item ids, and each value is an object with the fields
  \<^verbatim>\<open>name\<close>, \<^verbatim>\<open>price\<close> and \<^verbatim>\<open>quantity\<close>. It is modelled as an association list
  in insertion order, read through \<open>map_of\<close>. An assignment to a key that is
  present keeps its position, an assignment to a new key appends
  (\<open>AList.update\<close>), and \<^verbatim>\<open>delete cart[id]\<close> is \<open>AList.delete\<close>.

  Every handler that changes the cart then calls \<^verbatim>\<open>updateCart\<close> and
  \<^verbatim>\<open>saveCart\<close>, which read the cart and leave it as it is; the model of a
  handler is the cart it leaves.

  Modelling decisions:
  \<^item> a property key is a \<open>string\<close>; item ids are taken not to be names of
    properties that every object inherits (such as \<^verbatim>\<open>constructor\<close>), so
    that the test \<^verbatim>\<open>if (cart[id])\<close> is the test for an own entry (every
    entry is an object, hence truthy);
  \<^item> a price is an exact rational and a quantity an integer: the rounding of
    IEEE doubles is not modelled;
  \<^item> the order in which JavaScript enumerates integer-like keys is not
    modelled: no property below depends on the order of the entries.
\<close>

type_synonym item_id = string

record cart_line =
  name :: string
  price :: rat
  quantity :: int

type_synonym cart = "(item_id \<times> cart_line) list"

text \<open>
  The click handler of \<^verbatim>\<open>.add-to-cart-btn\<close>:
  \<^verbatim>\<open>if (cart[id]) { cart[id].quantity++; } else { cart[id] = { name: name, price: price, quantity: 1 }; }\<close>
\<close>

definition add_to_cart_btn_click :: "item_id \<Rightarrow> string \<Rightarrow> rat \<Rightarrow> cart \<Rightarrow> cart" where
  "add_to_cart_btn_click i n p c =
     (case map_of c i of
        Some l \<Rightarrow> AList.update i (l\<lparr>quantity := quantity l + 1\<rparr>) c
      | None \<Rightarrow> AList.update i \<lparr>name = n, price = p, quantity = 1\<rparr> c)"

text \<open>The click handler of \<^verbatim>\<open>.increase-qty\<close>: \<^verbatim>\<open>if (cart[id]) { cart[id].quantity++; ... }\<close>\<close>

definition increase_qty_click :: "item_id \<Rightarrow> cart \<Rightarrow> cart" where
  "increase_qty_click i c =
     (case map_of c i of
        Some l \<Rightarrow> AList.update i (l\<lparr>quantity := quantity l + 1\<rparr>) c
      | None \<Rightarrow> c)"

text \<open>
  The click handler of \<^verbatim>\<open>.decrease-qty\<close>:
  \<^verbatim>\<open>if (cart[id]) { cart[id].quantity--; if (cart[id].quantity <= 0) { delete cart[id]; } ... }\<close>
\<close>

definition decrease_qty_click :: "item_id \<Rightarrow> cart \<Rightarrow> cart" where
  "decrease_qty_click i c =
     (case map_of c i of
        Some l \<Rightarrow>
          (let l' = l\<lparr>quantity := quantity l - 1\<rparr>;
               c' = AList.update i l' c
           in if quantity l' \<le> 0 then AList.delete i c' else c')
      | None \<Rightarrow> c)"

text \<open>The click handler of \<^verbatim>\<open>.remove-item\<close>: \<^verbatim>\<open>if (cart[id]) { delete cart[id]; ... }\<close>\<close>

definition remove_item_click :: "item_id \<Rightarrow> cart \<Rightarrow> cart" where
  "remove_item_click i c =
     (case map_of c i of
        Some l \<Rightarrow> AList.delete i c
      | None \<Rightarrow> c)"


text \<open>The four operations of the cart, and a sequence of them run in order.\<close>

datatype cart_op =
    Add item_id string rat
  | Increase item_id
  | Decrease item_id
  | Remove item_id

fun apply_cart_op :: "cart_op \<Rightarrow> cart \<Rightarrow> cart" where
  "apply_cart_op (Add i n p) c = add_to_cart_btn_click i n p c"
| "apply_cart_op (Increase i) c = increase_qty_click i c"
| "apply_cart_op (Decrease i) c = decrease_qty_click i c"
| "apply_cart_op (Remove i) c = remove_item_click i c"

definition run_cart_ops :: "cart_op list \<Rightarrow> cart \<Rightarrow> cart" where
  "run_cart_ops ops c = fold apply_cart_op ops c"

text \<open>The invariant of the data model: every entry has a quantity of at least one.\<close>

definition quantities_positive :: "cart \<Rightarrow> bool" where
  "quantities_positive c = list_all (\<lambda>(i, l). 1 \<le> quantity l) c"

section \<open>Feed Controller\<close>

text \<open>
  The feed controller, in the later variant of the page script, is the
  function \<^verbatim>\<open>loadMoreListings\<close> with the
  two continuations of its \<^verbatim>\<open>$.ajax\<close> call, the handlers of the tag buttons
  and of the search bar, and the \<^verbatim>\<open>IntersectionObserver\<close>. Its state lives in
  the page: the children of \<^verbatim>\<open>#listing-grid\<close>, the \<^verbatim>\<open>disabled\<close> property, the
  content, the visibility and the \<^verbatim>\<open>next-page\<close> datum of \<^verbatim>\<open>#load-more-btn\<close>, the
  active tag button and the value of \<^verbatim>\<open>#search-bar\<close>.

  The type \<open>'l\<close> is the type of a listing as the Listings Service returns
  it; a rendered card is identified with the listing it was rendered from.
  Responses are taken to be well formed (every listing has the fields the
  template reads). The value of \<^verbatim>\<open>data-tag\<close> is a string.
\<close>

datatype btn_label = Label string | Spinner | FailedRetry

datatype 'l grid_child = Card 'l | NoMatchMessage

datatype js_error = ReferenceError | SyntaxError

text \<open>
  A request in flight: the parameters of its URL, and the two variables its
  continuations close over (\<^verbatim>\<open>isNewFilter\<close> and \<^verbatim>\<open>originalHtml\<close>).
\<close>

record request =
  req_page :: int
  req_tag :: string
  req_search :: string
  req_isNewFilter :: bool
  req_originalHtml :: btn_label

text \<open>The response of \<^verbatim>\<open>/api/listings/paged\<close>: \<^verbatim>\<open>{listings, pagination: {page, has_next}}\<close>.\<close>

record 'l response =
  listings :: "'l list"
  pagination_page :: int
  pagination_has_next :: bool

text \<open>
  \<open>btn_next_page\<close> is \<^verbatim>\<open>button.data('next-page')\<close>, \<open>None\<close> when the datum is
  undefined. \<open>observing\<close> tells whether the \<^verbatim>\<open>IntersectionObserver\<close> is
  connected. \<open>in_flight\<close> lists the requests that were sent and whose
  continuation has not run yet, oldest first.
\<close>

record 'l feed =
  listing_grid :: "'l grid_child list"
  btn_disabled :: bool
  btn_html :: btn_label
  btn_hidden :: bool
  btn_next_page :: "int option"
  active_tag :: "string option"
  search_bar :: string
  observing :: bool
  in_flight :: "request list"

text \<open>\<^verbatim>\<open>$('.tag-btn.active').data('tag') || 'all'\<close>\<close>

definition activeTag :: "'l feed \<Rightarrow> string" where
  "activeTag s = (case active_tag s of None \<Rightarrow> ''all'' | Some t \<Rightarrow> if t = [] then ''all'' else t)"

text \<open>
  \<^verbatim>\<open>loadMoreListings(isNewFilter)\<close>, up to and including the call of \<^verbatim>\<open>$.ajax\<close>,
  which appends the request to \<open>in_flight\<close>. The two early returns are the
  guard on the \<^verbatim>\<open>disabled\<close> property, which a new filter bypasses, and
  \<^verbatim>\<open>if (!nextPage) return\<close>, taken when the datum is undefined or zero.
\<close>

definition loadMoreListings :: "bool \<Rightarrow> 'l feed \<Rightarrow> 'l feed" where
  "loadMoreListings isNewFilter s =
     (if btn_disabled s \<and> \<not> isNewFilter then s
      else
        let s1 = (if isNewFilter then s\<lparr>listing_grid := [], btn_next_page := Some 1\<rparr> else s);
            nextPage = (if isNewFilter then Some 1 else btn_next_page s)
        in case nextPage of
             None \<Rightarrow> s1
           | Some n \<Rightarrow>
               if n = 0 then s1
               else
                 let originalHtml = btn_html s1;
                     s2 = s1\<lparr>btn_disabled := True, btn_html := Spinner\<rparr>
                 in s2\<lparr>in_flight := in_flight s2 @
                          [\<lparr>req_page = n, req_tag = activeTag s2, req_search = search_bar s2,
                            req_isNewFilter = isNewFilter, req_originalHtml = originalHtml\<rparr>]\<rparr>)"

text \<open>
  The \<^verbatim>\<open>success\<close> continuation of request \<open>r\<close>. Every listing of the response
  is appended to the grid; for a new filter with no listing the content of
  the grid is replaced by the message. The continuation does not read the
  filter the request was sent under.

  In the branch without a further page the continuation hides the button and
  then evaluates the identifier \<^verbatim>\<open>observer\<close>. That name is declared by
  \<^verbatim>\<open>const\<close> inside the block of \<^verbatim>\<open>if (loadMoreContainer && loadMoreBtn) { ... }\<close>,
  which follows the declaration of \<^verbatim>\<open>loadMoreListings\<close>; the block is not
  part of the scope chain of the continuation, so the evaluation raises a
  \<^verbatim>\<open>ReferenceError\<close> and \<^verbatim>\<open>observer.disconnect()\<close> is never reached. The second
  component of the result is the error the continuation ends with.
\<close>

definition ajax_success :: "request \<Rightarrow> 'l response \<Rightarrow> 'l feed \<Rightarrow> 'l feed \<times> js_error option" where
  "ajax_success r rsp s =
     (let s1 = s\<lparr>listing_grid := listing_grid s @ map Card (listings rsp)\<rparr>;
          s2 = (if req_isNewFilter r \<and> length (listings rsp) = 0
                then s1\<lparr>listing_grid := [NoMatchMessage]\<rparr> else s1)
      in if pagination_has_next rsp
         then (s2\<lparr>btn_next_page := Some (pagination_page rsp + 1),
                  btn_disabled := False, btn_html := req_originalHtml r\<rparr>, None)
         else (s2\<lparr>btn_hidden := True\<rparr>, Some ReferenceError))"

text \<open>The \<^verbatim>\<open>error\<close> continuation: \<^verbatim>\<open>button.prop('disabled', false).html('Failed to load. Try again?')\<close>\<close>

definition ajax_error :: "request \<Rightarrow> 'l feed \<Rightarrow> 'l feed" where
  "ajax_error r s = s\<lparr>btn_disabled := False, btn_html := FailedRetry\<rparr>"

text \<open>
  The click handler of \<^verbatim>\<open>.tag-btn\<close> makes the clicked button the only active
  one and calls \<^verbatim>\<open>loadMoreListings(true)\<close>; the debounced \<^verbatim>\<open>keyup\<close> handler of
  the search bar calls \<^verbatim>\<open>loadMoreListings(true)\<close> once it fires. The callback of
  the observer calls \<^verbatim>\<open>loadMoreListings(false)\<close> when the container intersects
  the viewport.
\<close>

definition tag_btn_click :: "string \<Rightarrow> 'l feed \<Rightarrow> 'l feed" where
  "tag_btn_click t s = loadMoreListings True (s\<lparr>active_tag := Some t\<rparr>)"

definition search_bar_keyup :: "'l feed \<Rightarrow> 'l feed" where
  "search_bar_keyup s = loadMoreListings True s"

definition observer_callback :: "bool \<Rightarrow> 'l feed \<Rightarrow> 'l feed" where
  "observer_callback isIntersecting s = (if isIntersecting then loadMoreListings False s else s)"

text \<open>
  The block at the end of the pagination section, run once when the page is
  ready and both elements exist: the observer starts to observe the
  container and the first page is requested.
\<close>

definition page_ready :: "'l feed \<Rightarrow> 'l feed" where
  "page_ready s = loadMoreListings True (s\<lparr>observing := True\<rparr>)"

text \<open>
  The events of the feed. \<open>SearchInput\<close> is the user editing the search
  bar (the value changes at once), \<open>SearchKeyup\<close> the debounced handler
  firing; the length of the quiet window is not modelled. \<open>FetchSuccess i\<close>
  and \<open>FetchFailure i\<close> run the continuation of the request at position \<open>i\<close>
  of \<open>in_flight\<close> and remove it from the list; they do nothing when there is
  no such request. An error that a continuation ends with is reported to the
  console and leaves the page as the continuation left it.
\<close>

datatype 'l event =
    LoadNext
  | TagClick string
  | SearchInput string
  | SearchKeyup
  | FetchSuccess nat "'l response"
  | FetchFailure nat

definition settle :: "nat \<Rightarrow> 'l feed \<Rightarrow> 'l feed" where
  "settle i s = s\<lparr>in_flight := take i (in_flight s) @ drop (Suc i) (in_flight s)\<rparr>"

fun feed_step :: "'l event \<Rightarrow> 'l feed \<Rightarrow> 'l feed" where
  "feed_step LoadNext s = (if observing s then observer_callback True s else s)"
| "feed_step (TagClick t) s = tag_btn_click t s"
| "feed_step (SearchInput t) s = s\<lparr>search_bar := t\<rparr>"
| "feed_step SearchKeyup s = search_bar_keyup s"
| "feed_step (FetchSuccess i rsp) s =
     (if i < length (in_flight s) then fst (ajax_success (in_flight s ! i) rsp (settle i s)) else s)"
| "feed_step (FetchFailure i) s =
     (if i < length (in_flight s) then ajax_error (in_flight s ! i) (settle i s) else s)"

definition run_feed :: "'l event list \<Rightarrow> 'l feed \<Rightarrow> 'l feed" where
  "run_feed es s = fold feed_step es s"

text \<open>
  A page as the template may deliver it, for the concrete runs below: an
  empty grid, the button enabled and visible, no \<^verbatim>\<open>next-page\<close> datum, no
  tag button yet (they are loaded later) and an empty search bar.
\<close>

definition fresh_page :: "nat feed" where
  "fresh_page =
     \<lparr>listing_grid = [], btn_disabled = False, btn_html = Label ''Load More'',
      btn_hidden = False, btn_next_page = None, active_tag = None,
      search_bar = [], observing = False, in_flight = []\<rparr>"

text \<open>
  The events that apply a filter, the states with at most one request in
  flight (the button is disabled while it is), and the event sequences that
  apply a filter only when no request is in flight.
\<close>

fun filter_event :: "'l event \<Rightarrow> bool" where
  "filter_event (TagClick t) = True"
| "filter_event SearchKeyup = True"
| "filter_event e = False"

definition single_flight :: "'l feed \<Rightarrow> bool" where
  "single_flight s = (in_flight s = [] \<or> (length (in_flight s) = 1 \<and> btn_disabled s))"

fun filters_when_settled :: "'l event list \<Rightarrow> 'l feed \<Rightarrow> bool" where
  "filters_when_settled [] s = True"
| "filters_when_settled (e # es) s =
     ((if filter_event e then in_flight s = [] else True) \<and> filters_when_settled es (feed_step e s))"

section \<open>The cart snapshot in local storage\<close>

text \<open>
  The cart is loaded once, by
  \<^verbatim>\<open>let cart = JSON.parse(localStorage.getItem('buxxelCart')) || {};\<close>
  and written by \<^verbatim>\<open>saveCart\<close>:
  \<^verbatim>\<open>localStorage.setItem('buxxelCart', JSON.stringify(cart));\<close>
  The value stored under the key is a \<open>string option\<close>, \<open>None\<close> when the key
  is absent. \<^verbatim>\<open>JSON.parse\<close> and \<^verbatim>\<open>JSON.stringify\<close> belong to the JavaScript
  runtime; they are modelled after the JSON grammar and the algorithms of the
  language definition.

  Modelling decisions:
  \<^item> a stored text is a list of 8-bit characters, the UTF-16 code units below
    256; the strings of a parsed value are lists of code units (\<open>nat\<close>), so
    that an escape \<^verbatim>\<open>\uXXXX\<close> always has a value;
  \<^item> a number is an exact rational: the rounding of a literal to an IEEE
    double is not modelled;
  \<^item> the properties of an object are an association list in the order of the
    text, a repeated key keeping its first position and its last value; the
    order JavaScript gives to integer-like keys is not modelled.
\<close>

type_synonym code_units = "nat list"

text \<open>The code units of a string of the model.\<close>

definition js :: "string \<Rightarrow> code_units" where
  "js s = map of_char s"

datatype json =
    JNull
  | JBool bool
  | JNumber rat
  | JString code_units
  | JArray "json list"
  | JObject "(code_units \<times> json) list"

subsection \<open>\<^verbatim>\<open>JSON.parse\<close>\<close>

text \<open>
  White space is space, tab, line feed and carriage return. A number is
  \<^verbatim>\<open>-? (0 | [1-9][0-9]*) (. [0-9]+)? ([eE] [+-]? [0-9]+)?\<close>; a string is
  delimited by double quotes (code 0x22), must not contain a raw character
  below 0x20, and a backslash (code 0x5C) starts one of the escapes
  \<^verbatim>\<open>" \ / b f n r t\<close> or \<^verbatim>\<open>uXXXX\<close> with four hexadecimal digits. Every
  function returns the value it read with the rest of the text, or the
  \<^verbatim>\<open>SyntaxError\<close> that \<^verbatim>\<open>JSON.parse\<close> throws.
\<close>

definition is_ws :: "char \<Rightarrow> bool" where
  "is_ws c = (c = CHR 0x20 \<or> c = CHR 0x09 \<or> c = CHR 0x0A \<or> c = CHR 0x0D)"

definition skip_ws :: "string \<Rightarrow> string" where
  "skip_ws s = dropWhile is_ws s"

definition is_digit :: "char \<Rightarrow> bool" where
  "is_digit c = (48 \<le> (of_char c :: nat) \<and> (of_char c :: nat) \<le> 57)"

definition digit_val :: "char \<Rightarrow> nat" where
  "digit_val c = of_char c - 48"

definition nat_of_digits :: "string \<Rightarrow> nat" where
  "nat_of_digits ds = foldl (\<lambda>n c. 10 * n + digit_val c) 0 ds"

definition hex_val :: "char \<Rightarrow> nat option" where
  "hex_val c =
     (let n = of_char c :: nat
      in if 48 \<le> n \<and> n \<le> 57 then Some (n - 48)
         else if 97 \<le> n \<and> n \<le> 102 then Some (n - 87)
         else if 65 \<le> n \<and> n \<le> 70 then Some (n - 55)
         else None)"

definition unescape :: "char \<Rightarrow> nat option" where
  "unescape e =
     (if e = CHR 0x22 then Some 0x22
      else if e = CHR 0x5C then Some 0x5C
      else if e = CHR ''/'' then Some 0x2F
      else if e = CHR ''b'' then Some 0x08
      else if e = CHR ''f'' then Some 0x0C
      else if e = CHR ''n'' then Some 0x0A
      else if e = CHR ''r'' then Some 0x0D
      else if e = CHR ''t'' then Some 0x09
      else None)"

definition cons_unit :: "nat \<Rightarrow> js_error + (code_units \<times> string) \<Rightarrow> js_error + (code_units \<times> string)" where
  "cons_unit u res = (case res of Inl e \<Rightarrow> Inl e | Inr (us, r) \<Rightarrow> Inr (u # us, r))"

fun parse_chars :: "string \<Rightarrow> js_error + (code_units \<times> string)" where
  "parse_chars [] = Inl SyntaxError"
| "parse_chars (c # r) =
     (if c = CHR 0x22 then Inr ([], r)
      else if c = CHR 0x5C then
        (case r of
           [] \<Rightarrow> Inl SyntaxError
         | e # r1 \<Rightarrow>
             if e = CHR ''u'' then
               (case r1 of
                  h1 # h2 # h3 # h4 # r2 \<Rightarrow>
                    (case (hex_val h1, hex_val h2, hex_val h3, hex_val h4) of
                       (Some a, Some b, Some c, Some d) \<Rightarrow>
                         cons_unit (4096 * a + 256 * b + 16 * c + d) (parse_chars r2)
                     | _ \<Rightarrow> Inl SyntaxError)
                | _ \<Rightarrow> Inl SyntaxError)
             else
               (case unescape e of
                  None \<Rightarrow> Inl SyntaxError
                | Some u \<Rightarrow> cons_unit u (parse_chars r1)))
      else if (of_char c :: nat) < 0x20 then Inl SyntaxError
      else cons_unit (of_char c) (parse_chars r))"

definition parse_int :: "string \<Rightarrow> js_error + (nat \<times> string)" where
  "parse_int s =
     (case s of
        [] \<Rightarrow> Inl SyntaxError
      | c # r \<Rightarrow>
          if c = CHR ''0'' then Inr (0, r)
          else if is_digit c then Inr (nat_of_digits (takeWhile is_digit s), dropWhile is_digit s)
          else Inl SyntaxError)"

definition parse_frac :: "string \<Rightarrow> js_error + (rat \<times> string)" where
  "parse_frac s =
     (case s of
        [] \<Rightarrow> Inr (0, s)
      | c # r \<Rightarrow>
          if c = CHR ''.'' then
            (let ds = takeWhile is_digit r
             in if ds = [] then Inl SyntaxError
                else Inr (of_nat (nat_of_digits ds) / 10 ^ length ds, dropWhile is_digit r))
          else Inr (0, s))"

definition parse_exp :: "string \<Rightarrow> js_error + (int \<times> string)" where
  "parse_exp s =
     (case s of
        [] \<Rightarrow> Inr (0, s)
      | c # r \<Rightarrow>
          if c = CHR ''e'' \<or> c = CHR ''E'' then
            (let negative = (r \<noteq> [] \<and> hd r = CHR ''-'');
                 r1 = (if r \<noteq> [] \<and> (hd r = CHR ''-'' \<or> hd r = CHR ''+'') then tl r else r);
                 ds = takeWhile is_digit r1
             in if ds = [] then Inl SyntaxError
                else Inr (if negative then - int (nat_of_digits ds) else int (nat_of_digits ds),
                          dropWhile is_digit r1))
          else Inr (0, s))"

definition scale10 :: "rat \<Rightarrow> int \<Rightarrow> rat" where
  "scale10 x e = (if 0 \<le> e then x * 10 ^ nat e else x / 10 ^ nat (- e))"

definition parse_number :: "string \<Rightarrow> js_error + (rat \<times> string)" where
  "parse_number s =
     (let negative = (s \<noteq> [] \<and> hd s = CHR ''-'');
          s1 = (if negative then tl s else s)
      in case parse_int s1 of
           Inl e \<Rightarrow> Inl e
         | Inr (ip, s2) \<Rightarrow>
             (case parse_frac s2 of
                Inl e \<Rightarrow> Inl e
              | Inr (fr, s3) \<Rightarrow>
                  (case parse_exp s3 of
                     Inl e \<Rightarrow> Inl e
                   | Inr (ex, s4) \<Rightarrow>
                       Inr (scale10 (if negative then - (of_nat ip + fr) else of_nat ip + fr) ex, s4))))"

definition parse_literal :: "string \<Rightarrow> json \<Rightarrow> string \<Rightarrow> js_error + (json \<times> string)" where
  "parse_literal word v s =
     (if take (length word) s = word then Inr (v, drop (length word) s) else Inl SyntaxError)"

text \<open>
  The rest a function returns is shorter than the text it was given. The
  parser of values below recurs on such rests; the facts about white space
  and strings are needed for its termination.
\<close>

lemma length_skip_ws: "length (skip_ws s) \<le> length s"
  by (simp add: skip_ws_def length_dropWhile_le)

lemma cons_unit_Inr: "cons_unit u res = Inr (us, r) \<longleftrightarrow> (\<exists>us'. res = Inr (us', r) \<and> us = u # us')"
  by (auto simp: cons_unit_def split: sum.splits)

lemma parse_chars_shorter: "parse_chars s = Inr (us, r) \<Longrightarrow> length r < length s"
proof (induction "length s" arbitrary: s us rule: less_induct)
  case less
  show ?case
  proof (cases s)
    case Nil
    with less.prems show ?thesis by simp
  next
    case (Cons c r')
    have IH: "\<And>t vs. parse_chars t = Inr (vs, r) \<Longrightarrow> length t \<le> length r' \<Longrightarrow> length r < length t"
      using less.hyps Cons by simp
    from less.prems Cons show ?thesis
      by (auto simp: cons_unit_Inr split: if_splits list.splits option.splits)
         (drule IH; simp)+
  qed
qed

lemma skip_ws_Cons_shorter: "skip_ws s = c # r \<Longrightarrow> length r < length s"
  using length_skip_ws [of s] by simp

text \<open>
  Values, the elements of an array after its opening bracket and the members
  of an object after its opening brace. \<open>parse_elements\<close> and \<open>parse_members\<close>
  carry the elements and members read so far. The tests that compare the
  length of a rest with the length of the text succeed whenever they are
  reached, because a value is never read from the empty text; they make the
  recursion well founded on the length of the text.
\<close>

function parse_value :: "string \<Rightarrow> js_error + (json \<times> string)"
  and parse_elements :: "json list \<Rightarrow> string \<Rightarrow> js_error + (json list \<times> string)"
  and parse_members :: "(code_units \<times> json) list \<Rightarrow> string \<Rightarrow> js_error + ((code_units \<times> json) list \<times> string)"
where
  "parse_value s =
     (case skip_ws s of
        [] \<Rightarrow> Inl SyntaxError
      | c # r \<Rightarrow>
          if c = CHR ''{'' then
            (case skip_ws r of
               [] \<Rightarrow> Inl SyntaxError
             | d # r1 \<Rightarrow>
                 if d = CHR ''}'' then Inr (JObject [], r1)
                 else (case parse_members [] r of
                         Inl e \<Rightarrow> Inl e
                       | Inr (ms, r2) \<Rightarrow> Inr (JObject ms, r2)))
          else if c = CHR ''['' then
            (case skip_ws r of
               [] \<Rightarrow> Inl SyntaxError
             | d # r1 \<Rightarrow>
                 if d = CHR '']'' then Inr (JArray [], r1)
                 else (case parse_elements [] r of
                         Inl e \<Rightarrow> Inl e
                       | Inr (vs, r2) \<Rightarrow> Inr (JArray vs, r2)))
          else if c = CHR 0x22 then
            (case parse_chars r of
               Inl e \<Rightarrow> Inl e
             | Inr (us, r1) \<Rightarrow> Inr (JString us, r1))
          else if c = CHR ''n'' then parse_literal ''null'' JNull (c # r)
          else if c = CHR ''t'' then parse_literal ''true'' (JBool True) (c # r)
          else if c = CHR ''f'' then parse_literal ''false'' (JBool False) (c # r)
          else (case parse_number (c # r) of
                  Inl e \<Rightarrow> Inl e
                | Inr (x, r1) \<Rightarrow> Inr (JNumber x, r1)))"
| "parse_elements acc s =
     (case parse_value s of
        Inl e \<Rightarrow> Inl e
      | Inr (v, r) \<Rightarrow>
          if length r < length s then
            (case skip_ws r of
               [] \<Rightarrow> Inl SyntaxError
             | c # r1 \<Rightarrow>
                 if c = CHR '','' then parse_elements (acc @ [v]) r1
                 else if c = CHR '']'' then Inr (acc @ [v], r1)
                 else Inl SyntaxError)
          else Inl SyntaxError)"
| "parse_members acc s =
     (case skip_ws s of
        [] \<Rightarrow> Inl SyntaxError
      | q # r \<Rightarrow>
          if q = CHR 0x22 then
            (case parse_chars r of
               Inl e \<Rightarrow> Inl e
             | Inr (k, r1) \<Rightarrow>
                 (case skip_ws r1 of
                    [] \<Rightarrow> Inl SyntaxError
                  | c # r2 \<Rightarrow>
                      if c = CHR '':'' then
                        (case parse_value r2 of
                           Inl e \<Rightarrow> Inl e
                         | Inr (v, r3) \<Rightarrow>
                             if length r3 < length r2 then
                               (case skip_ws r3 of
                                  [] \<Rightarrow> Inl SyntaxError
                                | d # r4 \<Rightarrow>
                                    if d = CHR '','' then parse_members (AList.update k v acc) r4
                                    else if d = CHR ''}'' then Inr (AList.update k v acc, r4)
                                    else Inl SyntaxError)
                             else Inl SyntaxError)
                      else Inl SyntaxError))
          else Inl SyntaxError)"
  by pat_completeness auto


termination
proof (relation "measure (\<lambda>x. case x of
          Inl s \<Rightarrow> 2 * length s + 1
        | Inr (Inl (acc, s)) \<Rightarrow> 2 * length s + 2
        | Inr (Inr (acc, s)) \<Rightarrow> 2 * length s + 2)", goal_cases)
  case 1
  then show ?case by simp
next
  case (2 s c r d r1)
  then show ?case by (auto dest: skip_ws_Cons_shorter)
next
  case (3 s c r d r1)
  then show ?case by (auto dest: skip_ws_Cons_shorter)
next
  case (4 acc s)
  then show ?case by simp
next
  case (5 acc s x v r c r1)
  then show ?case by (auto dest: skip_ws_Cons_shorter)
next
  case (6 acc s q r x k r1 c r2)
  then show ?case by (auto dest!: skip_ws_Cons_shorter parse_chars_shorter)
next
  case (7 acc s q r x k r1 c r2 y v r3 d r4)
  then show ?case by (auto dest!: skip_ws_Cons_shorter parse_chars_shorter)
qed

definition JSON_parse :: "string \<Rightarrow> js_error + json" where
  "JSON_parse text =
     (case parse_value text of
        Inl e \<Rightarrow> Inl e
      | Inr (v, r) \<Rightarrow> if skip_ws r = [] then Inr v else Inl SyntaxError)"

text \<open>
  The operand of \<^verbatim>\<open>||\<close> is falsy when it is \<^verbatim>\<open>null\<close>, \<^verbatim>\<open>false\<close>, zero or the
  empty string; objects and arrays are truthy.
\<close>

definition truthy :: "json \<Rightarrow> bool" where
  "truthy v =
     (case v of
        JNull \<Rightarrow> False
      | JBool b \<Rightarrow> b
      | JNumber x \<Rightarrow> x \<noteq> 0
      | JString us \<Rightarrow> us \<noteq> []
      | JArray vs \<Rightarrow> True
      | JObject ms \<Rightarrow> True)"

text \<open>
  The initialisation of \<^verbatim>\<open>cart\<close>. \<^verbatim>\<open>getItem\<close> returns \<^verbatim>\<open>null\<close> for an absent key,
  which \<^verbatim>\<open>JSON.parse\<close> converts to the text \<^verbatim>\<open>null\<close>. There is no
  \<^verbatim>\<open>try\<close> around the call: an error of \<^verbatim>\<open>JSON.parse\<close> is the outcome of the
  initialisation.
\<close>

definition restore :: "string option \<Rightarrow> js_error + json" where
  "restore stored =
     (case JSON_parse (case stored of None \<Rightarrow> ''null'' | Some text \<Rightarrow> text) of
        Inl e \<Rightarrow> Inl e
      | Inr v \<Rightarrow> Inr (if truthy v then v else JObject []))"

subsection \<open>\<^verbatim>\<open>JSON.stringify\<close>\<close>

text \<open>
  A number is written in decimal notation without an exponent: the digits
  of its integer part and, unless it is an integer, a point and the digits
  of its fraction. (JavaScript switches to exponent notation for magnitudes
  of at least \<^verbatim>\<open>1e21\<close> or below \<^verbatim>\<open>1e-6\<close>; both notations denote the same
  number.) The digits of the fraction are produced one by one until the
  remainder is zero, which happens for every decimal fraction and so for
  every finite double; for a rational that is no decimal fraction the
  function has no result.
\<close>

definition digit_char :: "nat \<Rightarrow> char" where
  "digit_char d = char_of (48 + d)"

fun show_nat :: "nat \<Rightarrow> string" where
  "show_nat n = (if n < 10 then [digit_char n] else show_nat (n div 10) @ [digit_char (n mod 10)])"

declare show_nat.simps [simp del]

partial_function (option) frac_digits :: "rat \<Rightarrow> string option" where
  "frac_digits x =
     (if x = 0 then Some []
      else Option.bind (frac_digits (x * 10 - of_int \<lfloor>x * 10\<rfloor>))
             (\<lambda>ds. Some (digit_char (nat \<lfloor>x * 10\<rfloor>) # ds)))"

declare frac_digits.simps [code]

definition Number_toString :: "rat \<Rightarrow> string option" where
  "Number_toString x =
     (let a = \<bar>x\<bar>;
          n = nat \<lfloor>a\<rfloor>;
          sign = (if x < 0 then ''-'' else [])
      in if a = of_nat n then Some (sign @ show_nat n)
         else map_option (\<lambda>ds. sign @ show_nat n @ ''.'' @ ds) (frac_digits (a - of_nat n)))"

text \<open>
  A string is written between double quotes, with the escapes of
  \<^verbatim>\<open>QuoteJSONString\<close>: the two-character escapes for the quote, the backslash
  and the control characters that have one, \<^verbatim>\<open>\u00xx\<close> with lower-case digits
  for the other code units below 0x20, and the character itself otherwise.
  A code unit above 255 has no character in a text of the model: the result
  is \<open>None\<close>.
\<close>

definition hex_char :: "nat \<Rightarrow> char" where
  "hex_char d = (if d < 10 then char_of (48 + d) else char_of (87 + d))"

definition quote_unit :: "nat \<Rightarrow> string option" where
  "quote_unit u =
     (if u = 0x22 then Some [CHR 0x5C, CHR 0x22]
      else if u = 0x5C then Some [CHR 0x5C, CHR 0x5C]
      else if u = 0x08 then Some [CHR 0x5C, CHR ''b'']
      else if u = 0x0C then Some [CHR 0x5C, CHR ''f'']
      else if u = 0x0A then Some [CHR 0x5C, CHR ''n'']
      else if u = 0x0D then Some [CHR 0x5C, CHR ''r'']
      else if u = 0x09 then Some [CHR 0x5C, CHR ''t'']
      else if u < 0x20 then Some ([CHR 0x5C] @ ''u00'' @ [hex_char (u div 16), hex_char (u mod 16)])
      else if u < 256 then Some [char_of u]
      else None)"

fun quote_units :: "code_units \<Rightarrow> string option" where
  "quote_units [] = Some []"
| "quote_units (u # us) =
     (case quote_unit u of
        None \<Rightarrow> None
      | Some a \<Rightarrow> (case quote_units us of None \<Rightarrow> None | Some b \<Rightarrow> Some (a @ b)))"

definition QuoteJSONString :: "code_units \<Rightarrow> string option" where
  "QuoteJSONString us = map_option (\<lambda>b. [CHR 0x22] @ b @ [CHR 0x22]) (quote_units us)"

fun join_commas :: "string list \<Rightarrow> string" where
  "join_commas [] = []"
| "join_commas [p] = p"
| "join_commas (p # q # ps) = p @ '','' @ join_commas (q # ps)"

fun JSON_stringify :: "json \<Rightarrow> string option" where
  "JSON_stringify JNull = Some ''null''"
| "JSON_stringify (JBool b) = Some (if b then ''true'' else ''false'')"
| "JSON_stringify (JNumber x) = Number_toString x"
| "JSON_stringify (JString us) = QuoteJSONString us"
| "JSON_stringify (JArray vs) =
     map_option (\<lambda>parts. ''['' @ join_commas parts @ '']'') (those (map JSON_stringify vs))"
| "JSON_stringify (JObject ms) =
     map_option (\<lambda>parts. ''{'' @ join_commas parts @ ''}'')
       (those (map (\<lambda>m. case QuoteJSONString (fst m) of
                             None \<Rightarrow> None
                           | Some k \<Rightarrow> map_option (\<lambda>t. k @ '':'' @ t) (JSON_stringify (snd m))) ms))"

text \<open>
  The cart as the JavaScript object it is, and \<^verbatim>\<open>saveCart\<close>, which returns the
  text stored under the key.
\<close>

definition line_json :: "cart_line \<Rightarrow> json" where
  "line_json l =
     JObject [(js ''name'', JString (js (name l))),
              (js ''price'', JNumber (price l)),
              (js ''quantity'', JNumber (of_int (quantity l)))]"

definition cart_json :: "cart \<Rightarrow> json" where
  "cart_json c = JObject (map (\<lambda>(i, l). (js i, line_json l)) c)"

definition saveCart :: "cart \<Rightarrow> string option" where
  "saveCart c = JSON_stringify (cart_json c)"

text \<open>A decimal fraction: an integer divided by a power of ten.\<close>

definition is_decimal :: "rat \<Rightarrow> bool" where
  "is_decimal x = (\<exists>m k. x = of_int m / 10 ^ k)"

definition decimal_prices :: "cart_op list \<Rightarrow> bool" where
  "decimal_prices ops = list_all (\<lambda>x. case x of Add i n p \<Rightarrow> is_decimal p | _ \<Rightarrow> True) ops"

subsection \<open>Notions for the round trip\<close>

text \<open>
  A value whose objects have no repeated key, at any depth; the characters a
  written value can start with; the rests that can follow a value (nothing,
  a comma, or a closing bracket or brace); and the round-trip property of a
  value: reading the text written for it, before any such rest, gives the
  value back and leaves the rest. A cart all of whose prices are decimal
  fractions.
\<close>

fun keys_distinct :: "json \<Rightarrow> bool" where
  "keys_distinct (JArray vs) = list_all keys_distinct vs"
| "keys_distinct (JObject ms) = (distinct (map fst ms) \<and> list_all (\<lambda>m. keys_distinct (snd m)) ms)"
| "keys_distinct v = True"

definition value_start :: "char \<Rightarrow> bool" where
  "value_start c = (is_digit c \<or> c \<in> set ''-ntf[{'' \<or> c = CHR 0x22)"

definition value_end :: "string \<Rightarrow> bool" where
  "value_end rest = (rest = [] \<or> hd rest = CHR '','' \<or> hd rest = CHR '']'' \<or> hd rest = CHR ''}'')"

definition roundtrips :: "json \<Rightarrow> bool" where
  "roundtrips v = (\<forall>t rest. JSON_stringify v = Some t \<longrightarrow> keys_distinct v \<longrightarrow> value_end rest \<longrightarrow>
      parse_value (t @ rest) = Inr (v, rest))"

definition decimal_cart :: "cart \<Rightarrow> bool" where
  "decimal_cart c = (\<forall>(i, l)\<in>set c. is_decimal (price l))"

text \<open>The equations of the parser are unfolded by hand in the proofs below.\<close>

declare parse_value.simps [simp del] parse_elements.simps [simp del] parse_members.simps [simp del]

section \<open>Properties of the Cart Store\<close>

lemma quantities_positive_update:
  "quantities_positive c \<Longrightarrow> 1 \<le> quantity l \<Longrightarrow> quantities_positive (AList.update i l c)"
  by (induction c) (auto simp: quantities_positive_def)

lemma quantities_positive_delete:
  "quantities_positive c \<Longrightarrow> quantities_positive (AList.delete i c)"
  by (induction c) (auto simp: quantities_positive_def)

lemma quantities_positive_map_of:
  "quantities_positive c \<Longrightarrow> map_of c i = Some l \<Longrightarrow> 1 \<le> quantity l"
  by (induction c) (auto simp: quantities_positive_def split: if_splits)

lemma quantities_positive_step:
  assumes "quantities_positive c"
  shows "quantities_positive (apply_cart_op x c)"
proof (cases x)
  case (Add i n p)
  show ?thesis
  proof (cases "map_of c i")
    case None
    with Add assms show ?thesis
      by (simp add: add_to_cart_btn_click_def quantities_positive_update)
  next
    case (Some l)
    with assms have "1 \<le> quantity l" by (rule quantities_positive_map_of)
    with Add Some assms show ?thesis
      by (simp add: add_to_cart_btn_click_def quantities_positive_update)
  qed
next
  case (Increase i)
  show ?thesis
  proof (cases "map_of c i")
    case None
    with Increase assms show ?thesis by (simp add: increase_qty_click_def)
  next
    case (Some l)
    with assms have "1 \<le> quantity l" by (rule quantities_positive_map_of)
    with Increase Some assms show ?thesis
      by (simp add: increase_qty_click_def quantities_positive_update)
  qed
next
  case (Decrease i)
  show ?thesis
  proof (cases "map_of c i")
    case None
    with Decrease assms show ?thesis by (simp add: decrease_qty_click_def)
  next
    case (Some l)
    with Decrease assms show ?thesis
      by (simp add: decrease_qty_click_def Let_def delete_update_same
          quantities_positive_delete quantities_positive_update)
  qed
next
  case (Remove i)
  with assms show ?thesis
    by (simp add: remove_item_click_def quantities_positive_delete split: option.splits)
qed

lemma quantities_positive_run:
  "quantities_positive c \<Longrightarrow> quantities_positive (run_cart_ops ops c)"
  unfolding run_cart_ops_def
  by (induction ops arbitrary: c) (simp_all add: quantities_positive_step)




lemma quantities_positive_Nil: "quantities_positive []"
  by (simp add: quantities_positive_def)

lemma distinct_keys_step: "distinct (map fst c) \<Longrightarrow> distinct (map fst (apply_cart_op x c))"
  by (cases x)
     (auto simp: add_to_cart_btn_click_def increase_qty_click_def decrease_qty_click_def
        remove_item_click_def Let_def distinct_update distinct_delete split: option.splits)

lemma distinct_keys_run: "distinct (map fst c) \<Longrightarrow> distinct (map fst (run_cart_ops ops c))"
  unfolding run_cart_ops_def
  by (induction ops arbitrary: c) (simp_all add: distinct_keys_step)





text \<open>
  Claim C4. After every sequence of add, increase, decrease and remove
  operations from the empty cart, every entry of the cart has a quantity of
  at least one. A decrease of an entry whose quantity is at most one deletes
  the line; after that an increase or a decrease of the same id changes
  nothing, and an add of that id inserts a new line with quantity one.
\<close>

theorem quantity_at_least_one:
  "(\<forall>i l. map_of (run_cart_ops ops []) i = Some l \<longrightarrow> 1 \<le> quantity l)
   \<and> (\<forall>c i l n p. map_of c i = Some l \<and> quantity l \<le> 1 \<longrightarrow>
         map_of (decrease_qty_click i c) i = None
         \<and> increase_qty_click i (decrease_qty_click i c) = decrease_qty_click i c
         \<and> decrease_qty_click i (decrease_qty_click i c) = decrease_qty_click i c
         \<and> map_of (add_to_cart_btn_click i n p (decrease_qty_click i c)) i
             = Some \<lparr>name = n, price = p, quantity = 1\<rparr>)"
proof (intro conjI allI impI)
  fix i l
  assume "map_of (run_cart_ops ops []) i = Some l"
  moreover have "quantities_positive (run_cart_ops ops [])"
    by (rule quantities_positive_run) (rule quantities_positive_Nil)
  ultimately show "1 \<le> quantity l"
    by (rule quantities_positive_map_of [rotated])
next
  fix c :: cart and i l n p
  assume a: "map_of c i = Some l \<and> quantity l \<le> 1"
  then have gone: "map_of (decrease_qty_click i c) i = None"
    by (simp add: decrease_qty_click_def Let_def delete_conv)
  show "map_of (decrease_qty_click i c) i = None" by (rule gone)
  show "increase_qty_click i (decrease_qty_click i c) = decrease_qty_click i c"
    by (simp add: increase_qty_click_def [of i "decrease_qty_click i c"] gone)
  show "decrease_qty_click i (decrease_qty_click i c) = decrease_qty_click i c"
    by (simp add: decrease_qty_click_def [of i "decrease_qty_click i c"] gone)
  show "map_of (add_to_cart_btn_click i n p (decrease_qty_click i c)) i
          = Some \<lparr>name = n, price = p, quantity = 1\<rparr>"
    by (simp add: add_to_cart_btn_click_def [of i n p "decrease_qty_click i c"] gone update_conv')
qed

text \<open>The theorem at the cart that holds one Widget.\<close>

theorem quantity_at_least_one_witness:
  "map_of (run_cart_ops [Add ''X1'' ''Widget'' 9.99] []) ''X1''
     = Some \<lparr>name = ''Widget'', price = 9.99, quantity = 1\<rparr>
   \<and> (1::int) \<le> quantity \<lparr>name = ''Widget'', price = 9.99, quantity = 1\<rparr>
   \<and> map_of (decrease_qty_click ''X1'' (run_cart_ops [Add ''X1'' ''Widget'' 9.99] [])) ''X1'' = None
   \<and> increase_qty_click ''X1'' (decrease_qty_click ''X1'' (run_cart_ops [Add ''X1'' ''Widget'' 9.99] []))
       = decrease_qty_click ''X1'' (run_cart_ops [Add ''X1'' ''Widget'' 9.99] [])
   \<and> map_of (add_to_cart_btn_click ''X1'' ''Gadget'' 5
               (decrease_qty_click ''X1'' (run_cart_ops [Add ''X1'' ''Widget'' 9.99] []))) ''X1''
       = Some \<lparr>name = ''Gadget'', price = 5, quantity = 1\<rparr>"
proof -
  have e: "map_of (run_cart_ops [Add ''X1'' ''Widget'' 9.99] []) ''X1''
             = Some \<lparr>name = ''Widget'', price = 9.99, quantity = 1\<rparr>"
    by (simp add: run_cart_ops_def add_to_cart_btn_click_def)
  show ?thesis
    using e quantity_at_least_one [of "[Add ''X1'' ''Widget'' 9.99]"]
    by simp
qed

text \<open>
  Claim C10. When the id is already in the cart, add increments the quantity
  of that line and nothing else: the stored name and price stay, whatever
  name and price the call passes, every other line is unchanged, and so is
  the list of keys.
\<close>

theorem add_existing_changes_quantity_only:
  assumes "map_of c i = Some l"
  shows "map_of (add_to_cart_btn_click i n' p' c) i
           = Some \<lparr>name = name l, price = price l, quantity = quantity l + 1\<rparr>
         \<and> (\<forall>j. j \<noteq> i \<longrightarrow> map_of (add_to_cart_btn_click i n' p' c) j = map_of c j)
         \<and> map fst (add_to_cart_btn_click i n' p' c) = map fst c"
proof -
  from assms have "i \<in> fst ` set c"
    by (metis map_of_eq_None_iff option.distinct(1))
  with assms show ?thesis
    by (simp add: add_to_cart_btn_click_def update_conv' update_keys)
qed

text \<open>The theorem at a cart with two Widgets, adding under another name and price.\<close>

theorem add_existing_changes_quantity_only_witness:
  "map_of [(''X1'', \<lparr>name = ''Widget'', price = 9.99, quantity = 2\<rparr>)] ''X1''
     = Some \<lparr>name = ''Widget'', price = 9.99, quantity = 2\<rparr>
   \<and> map_of (add_to_cart_btn_click ''X1'' ''Gadget'' 5
               [(''X1'', \<lparr>name = ''Widget'', price = 9.99, quantity = 2\<rparr>)]) ''X1''
       = Some \<lparr>name = ''Widget'', price = 9.99, quantity = 3\<rparr>"
  using add_existing_changes_quantity_only
    [of "[(''X1'', \<lparr>name = ''Widget'', price = 9.99, quantity = 2\<rparr>)]" "''X1''"
        "\<lparr>name = ''Widget'', price = 9.99, quantity = 2\<rparr>" "''Gadget''" 5]
  by simp

section \<open>Properties of the Feed Controller\<close>

lemma loadMoreListings_new_filter:
  "loadMoreListings True s =
     s\<lparr>listing_grid := [], btn_next_page := Some 1, btn_disabled := True, btn_html := Spinner,
       in_flight := in_flight s @
         [\<lparr>req_page = 1, req_tag = activeTag s, req_search = search_bar s,
           req_isNewFilter = True, req_originalHtml = btn_html s\<rparr>]\<rparr>"
  by (simp add: loadMoreListings_def Let_def activeTag_def)

lemma loadMoreListings_disabled: "btn_disabled s \<Longrightarrow> loadMoreListings False s = s"
  by (simp add: loadMoreListings_def)

lemma loadMoreListings_next:
  "\<not> btn_disabled s \<Longrightarrow> btn_next_page s = Some n \<Longrightarrow> n \<noteq> 0 \<Longrightarrow>
   loadMoreListings False s =
     s\<lparr>btn_disabled := True, btn_html := Spinner,
       in_flight := in_flight s @
         [\<lparr>req_page = n, req_tag = activeTag s, req_search = search_bar s,
           req_isNewFilter = False, req_originalHtml = btn_html s\<rparr>]\<rparr>"
  by (simp add: loadMoreListings_def Let_def activeTag_def)

lemma loadMoreListings_no_page:
  "\<not> btn_disabled s \<Longrightarrow> btn_next_page s = None \<or> btn_next_page s = Some 0 \<Longrightarrow>
   loadMoreListings False s = s"
  by (auto simp: loadMoreListings_def)


lemma single_flight_step:
  assumes "single_flight s" and "if filter_event e then in_flight s = [] else True"
  shows "single_flight (feed_step e s)"
proof (cases e)
  case LoadNext
  show ?thesis
  proof (cases "btn_disabled s \<or> \<not> observing s")
    case True
    with LoadNext assms show ?thesis
      by (auto simp: observer_callback_def loadMoreListings_disabled)
  next
    case False
    with assms have "in_flight s = []" by (auto simp: single_flight_def)
    with LoadNext False show ?thesis
      by (auto simp: observer_callback_def loadMoreListings_def single_flight_def Let_def
          split: option.splits)
  qed
next
  case (TagClick t)
  with assms show ?thesis
    by (simp add: tag_btn_click_def loadMoreListings_new_filter single_flight_def)
next
  case (SearchInput q)
  with assms show ?thesis by (simp add: single_flight_def)
next
  case SearchKeyup
  with assms show ?thesis
    by (simp add: search_bar_keyup_def loadMoreListings_new_filter single_flight_def)
next
  case (FetchSuccess i rsp)
  with assms show ?thesis
    by (auto simp: single_flight_def ajax_success_def settle_def Let_def)
next
  case (FetchFailure i)
  with assms show ?thesis
    by (auto simp: single_flight_def ajax_error_def settle_def)
qed

lemma single_flight_run:
  "single_flight s \<Longrightarrow> filters_when_settled es s \<Longrightarrow> single_flight (run_feed es s)"
  unfolding run_feed_def
proof (induction es arbitrary: s)
  case Nil
  then show ?case by simp
next
  case (Cons e es)
  from Cons.prems have "single_flight (feed_step e s)"
    by (intro single_flight_step) simp_all
  moreover from Cons.prems have "filters_when_settled es (feed_step e s)" by simp
  ultimately show ?case using Cons.IH by simp
qed

text \<open>
  Claim C2, as amended. At most one request is in flight in every state
  reached, from a state with no request in flight or with one request in
  flight and the button disabled, by a sequence of load-next, filter and
  continuation events that applies a filter only while no request is in
  flight; the observer's call is ignored while the button is disabled. Applying a filter is not guarded: it sends its request
  in every state, so the number of requests in flight grows by one.
\<close>

theorem one_fetch_unless_filter_in_flight:
  "(single_flight s \<and> filters_when_settled es s \<longrightarrow> length (in_flight (run_feed es s)) \<le> 1)
   \<and> (btn_disabled s \<longrightarrow> observer_callback True s = s)
   \<and> length (in_flight (tag_btn_click t s)) = length (in_flight s) + 1
   \<and> length (in_flight (search_bar_keyup s)) = length (in_flight s) + 1"
proof (intro conjI impI)
  assume "single_flight s \<and> filters_when_settled es s"
  then have "single_flight (run_feed es s)" by (simp add: single_flight_run)
  then show "length (in_flight (run_feed es s)) \<le> 1" by (auto simp: single_flight_def)
next
  assume "btn_disabled s"
  then show "observer_callback True s = s"
    by (simp add: observer_callback_def loadMoreListings_disabled)
qed (simp_all add: tag_btn_click_def search_bar_keyup_def loadMoreListings_new_filter)


lemma page_ready_fresh:
  "page_ready fresh_page =
     \<lparr>listing_grid = [], btn_disabled = True, btn_html = Spinner,
      btn_hidden = False, btn_next_page = Some 1, active_tag = None,
      search_bar = [], observing = True,
      in_flight = [\<lparr>req_page = 1, req_tag = ''all'', req_search = [],
                     req_isNewFilter = True, req_originalHtml = Label ''Load More''\<rparr>]\<rparr>"
  by (simp add: page_ready_def fresh_page_def loadMoreListings_new_filter activeTag_def)

text \<open>The theorem at the page after it became ready, for a run that filters once the first response has arrived.\<close>

theorem one_fetch_unless_filter_in_flight_witness:
  "single_flight (page_ready fresh_page)
   \<and> filters_when_settled
        [LoadNext, FetchSuccess 0 \<lparr>listings = [1, 2], pagination_page = 1, pagination_has_next = True\<rparr>,
         TagClick ''shoes'', LoadNext] (page_ready fresh_page)
   \<and> length (in_flight (run_feed
        [LoadNext, FetchSuccess 0 \<lparr>listings = [1, 2], pagination_page = 1, pagination_has_next = True\<rparr>,
         TagClick ''shoes'', LoadNext] (page_ready fresh_page))) \<le> 1
   \<and> btn_disabled (page_ready fresh_page)
   \<and> observer_callback True (page_ready fresh_page) = page_ready fresh_page"
proof -
  have a: "single_flight (page_ready fresh_page)"
    by (simp add: page_ready_fresh single_flight_def)
  have b: "filters_when_settled
        [LoadNext, FetchSuccess 0 \<lparr>listings = [1, 2], pagination_page = 1, pagination_has_next = True\<rparr>,
         TagClick ''shoes'', LoadNext] (page_ready fresh_page)"
    by (simp add: page_ready_fresh observer_callback_def loadMoreListings_def ajax_success_def
        settle_def Let_def tag_btn_click_def)
  have c: "btn_disabled (page_ready fresh_page)"
    by (simp add: page_ready_fresh)
  show ?thesis
    using a b c one_fetch_unless_filter_in_flight
      [of "page_ready fresh_page"
          "[LoadNext, FetchSuccess 0 \<lparr>listings = [1, 2], pagination_page = 1, pagination_has_next = True\<rparr>,
            TagClick ''shoes'', LoadNext]"]
    by simp
qed

text \<open>
  Claim C2 as stated fails: a click on the tag \<^verbatim>\<open>shoes\<close> while the request of
  the page load is in flight leaves two requests in flight.
\<close>

theorem second_fetch_while_first_in_flight:
  "in_flight (run_feed [TagClick ''shoes''] (page_ready fresh_page)) =
     [\<lparr>req_page = 1, req_tag = ''all'', req_search = [],
       req_isNewFilter = True, req_originalHtml = Label ''Load More''\<rparr>,
      \<lparr>req_page = 1, req_tag = ''shoes'', req_search = [],
       req_isNewFilter = True, req_originalHtml = Spinner\<rparr>]"
  by (simp add: run_feed_def page_ready_fresh tag_btn_click_def loadMoreListings_new_filter activeTag_def)





lemma ajax_success_has_next:
  "pagination_has_next rsp \<Longrightarrow>
   btn_next_page (fst (ajax_success r rsp s)) = Some (pagination_page rsp + 1)
   \<and> \<not> btn_disabled (fst (ajax_success r rsp s))
   \<and> snd (ajax_success r rsp s) = None"
  by (simp add: ajax_success_def Let_def)

lemma ajax_success_last_page:
  "\<not> pagination_has_next rsp \<Longrightarrow>
   btn_hidden (fst (ajax_success r rsp s))
   \<and> btn_disabled (fst (ajax_success r rsp s)) = btn_disabled s
   \<and> btn_next_page (fst (ajax_success r rsp s)) = btn_next_page s
   \<and> observing (fst (ajax_success r rsp s)) = observing s
   \<and> snd (ajax_success r rsp s) = Some ReferenceError"
  by (simp add: ajax_success_def Let_def)

text \<open>
  Claim C7, at the run of the specification's scenario. The response for
  page 1 with a further page sets the next page to 2 and enables the button;
  the observer's call then requests page 2. The continuation of the response
  without a further page hides the button and ends with a
  \<^verbatim>\<open>ReferenceError\<close>: the button stays disabled, so a later call of the
  observer changes nothing, but the observer is still connected.
\<close>

theorem observer_still_connected_when_exhausted:
  "btn_next_page (feed_step (FetchSuccess 0 \<lparr>listings = [1, 2], pagination_page = 1, pagination_has_next = True\<rparr>)
      (page_ready fresh_page)) = Some 2
   \<and> \<not> btn_disabled (feed_step (FetchSuccess 0 \<lparr>listings = [1, 2], pagination_page = 1, pagination_has_next = True\<rparr>)
      (page_ready fresh_page))
   \<and> in_flight (run_feed
        [FetchSuccess 0 \<lparr>listings = [1, 2], pagination_page = 1, pagination_has_next = True\<rparr>, LoadNext]
        (page_ready fresh_page))
      = [\<lparr>req_page = 2, req_tag = ''all'', req_search = [], req_isNewFilter = False,
          req_originalHtml = Label ''Load More''\<rparr>]
   \<and> ajax_success
        \<lparr>req_page = 2, req_tag = ''all'', req_search = [], req_isNewFilter = False,
         req_originalHtml = Label ''Load More''\<rparr>
        \<lparr>listings = [3], pagination_page = 2, pagination_has_next = False\<rparr>
        (settle 0 (run_feed
          [FetchSuccess 0 \<lparr>listings = [1, 2], pagination_page = 1, pagination_has_next = True\<rparr>, LoadNext]
          (page_ready fresh_page)))
      = (\<lparr>listing_grid = [Card 1, Card 2, Card 3], btn_disabled = True, btn_html = Spinner,
          btn_hidden = True, btn_next_page = Some 2, active_tag = None,
          search_bar = [], observing = True, in_flight = []\<rparr>,
         Some ReferenceError)
   \<and> feed_step LoadNext
        \<lparr>listing_grid = [Card 1, Card 2, Card 3], btn_disabled = True, btn_html = Spinner,
         btn_hidden = True, btn_next_page = Some 2, active_tag = None,
         search_bar = [], observing = True, in_flight = []\<rparr>
      = \<lparr>listing_grid = [Card 1, Card 2, Card 3], btn_disabled = True, btn_html = Spinner,
         btn_hidden = True, btn_next_page = Some 2, active_tag = None,
         search_bar = [], observing = True, in_flight = []\<rparr>"
  by (simp add: run_feed_def page_ready_fresh observer_callback_def loadMoreListings_def
      activeTag_def ajax_success_def settle_def Let_def)



section \<open>Properties of the cart snapshot\<close>

subsection \<open>The rest of a parse is shorter than its text\<close>

lemma parse_literal_shorter:
  "parse_literal w v s = Inr (x, r) \<Longrightarrow> w \<noteq> [] \<Longrightarrow> length r < length s"
  by (cases s) (auto simp: parse_literal_def split: if_splits)

lemma parse_int_shorter: "parse_int s = Inr (n, r) \<Longrightarrow> length r < length s"
proof (cases s)
  case Nil
  then show "parse_int s = Inr (n, r) \<Longrightarrow> length r < length s" by (simp add: parse_int_def)
next
  case (Cons c t)
  assume "parse_int s = Inr (n, r)"
  with Cons have "r = t \<or> (is_digit c \<and> r = dropWhile is_digit (c # t))"
    by (auto simp: parse_int_def split: if_splits)
  then show "length r < length s"
    using length_dropWhile_le [of is_digit t] by (auto simp: Cons)
qed

lemma parse_frac_shorter: "parse_frac s = Inr (x, r) \<Longrightarrow> length r \<le> length s"
  by (cases s) (auto simp: parse_frac_def Let_def le_SucI length_dropWhile_le split: if_splits)

lemma parse_exp_shorter: "parse_exp s = Inr (e, r) \<Longrightarrow> length r \<le> length s"
proof (cases s)
  case Nil
  then show "parse_exp s = Inr (e, r) \<Longrightarrow> length r \<le> length s" by (simp add: parse_exp_def)
next
  case (Cons c t)
  assume a: "parse_exp s = Inr (e, r)"
  have "length (dropWhile is_digit (tl t)) \<le> length t"
    using length_dropWhile_le [of is_digit "tl t"] by (cases t) auto
  with a Cons show "length r \<le> length s"
    using length_dropWhile_le [of is_digit t]
    by (auto simp: parse_exp_def Let_def le_SucI split: if_splits)
qed

lemma parse_number_shorter: "parse_number s = Inr (x, r) \<Longrightarrow> length r < length s"
proof -
  assume a: "parse_number s = Inr (x, r)"
  define s1 where "s1 = (if s \<noteq> [] \<and> hd s = CHR ''-'' then tl s else s)"
  have s1: "length s1 \<le> length s" by (simp add: s1_def)
  from a obtain ip s2 fr s3 ex where "parse_int s1 = Inr (ip, s2)" "parse_frac s2 = Inr (fr, s3)"
    "parse_exp s3 = Inr (ex, r)"
    by (auto simp: parse_number_def Let_def s1_def [symmetric] split: sum.splits)
  with s1 show ?thesis
    using parse_int_shorter [of s1 ip s2] parse_frac_shorter [of s2 fr s3] parse_exp_shorter [of s3 ex r]
    by simp
qed

lemma parse_value_shorter: "parse_value s = Inr (v, r) \<Longrightarrow> length r < length s"
  and parse_elements_shorter: "parse_elements acc s = Inr (vs, r) \<Longrightarrow> length r < length s"
  and parse_members_shorter: "parse_members macc s = Inr (ms, r) \<Longrightarrow> length r < length s"
proof (induction s and acc s and macc s arbitrary: v r and vs r and ms r
    rule: parse_value_parse_elements_parse_members.induct)
  case (1 s)
  from "1.prems" obtain c t where ct: "skip_ws s = c # t"
    by (subst (asm) parse_value.simps) (auto split: list.splits)
  then have t: "length t < length s" by (rule skip_ws_Cons_shorter)
  from length_skip_ws [of s] ct have ct_len: "length (c # t) \<le> length s" by simp
  consider (obj) "c = CHR ''{''" | (arr) "c = CHR ''[''" "c \<noteq> CHR ''{''"
    | (str) "c = CHR 0x22" | (lit) "c = CHR ''n'' \<or> c = CHR ''t'' \<or> c = CHR ''f''"
    | (num) "c \<noteq> CHR ''{''" "c \<noteq> CHR ''[''" "c \<noteq> CHR 0x22" "c \<noteq> CHR ''n''" "c \<noteq> CHR ''t''" "c \<noteq> CHR ''f''"
    by blast
  then show ?case
  proof cases
    case obj
    from "1.prems" ct obj obtain d t1 where d: "skip_ws t = d # t1"
      by (subst (asm) parse_value.simps) (auto split: list.splits)
    show ?thesis
    proof (cases "d = CHR ''}''")
      case True
      with "1.prems" ct obj d have "r = t1"
        by (subst (asm) parse_value.simps) simp
      with skip_ws_Cons_shorter [OF d] t show ?thesis by simp
    next
      case False
      with "1.prems" ct obj d obtain ms where "parse_members [] t = Inr (ms, r)"
        by (subst (asm) parse_value.simps) (auto split: sum.splits)
      from "1.IH"(1) [OF ct obj d False this] t show ?thesis by simp
    qed
  next
    case arr
    from "1.prems" ct arr obtain d t1 where d: "skip_ws t = d # t1"
      by (subst (asm) parse_value.simps) (auto split: list.splits)
    show ?thesis
    proof (cases "d = CHR '']''")
      case True
      with "1.prems" ct arr d have "r = t1"
        by (subst (asm) parse_value.simps) simp
      with skip_ws_Cons_shorter [OF d] t show ?thesis by simp
    next
      case False
      with "1.prems" ct arr d obtain vs where "parse_elements [] t = Inr (vs, r)"
        by (subst (asm) parse_value.simps) (auto split: sum.splits)
      from "1.IH"(2) [OF ct arr(2) arr(1) d False this] t show ?thesis by simp
    qed
  next
    case str
    with "1.prems" ct obtain us where "parse_chars t = Inr (us, r)"
      by (subst (asm) parse_value.simps) (auto split: sum.splits)
    from parse_chars_shorter [OF this] t show ?thesis by simp
  next
    case lit
    with "1.prems" ct obtain w x where "parse_literal w x (c # t) = Inr (v, r)" "w \<noteq> []"
      by (subst (asm) parse_value.simps) (auto split: if_splits)
    from parse_literal_shorter [OF this] ct_len show ?thesis by simp
  next
    case num
    with "1.prems" ct obtain x where "parse_number (c # t) = Inr (x, r)"
      by (subst (asm) parse_value.simps) (auto split: sum.splits)
    from parse_number_shorter [OF this] ct_len show ?thesis by simp
  qed
next
  case (2 acc s)
  from "2.prems" obtain v r0 where "parse_value s = Inr (v, r0)" and lt: "length r0 < length s"
    and rest: "(case skip_ws r0 of
               [] \<Rightarrow> Inl SyntaxError
             | c # r1 \<Rightarrow>
                 if c = CHR '','' then parse_elements (acc @ [v]) r1
                 else if c = CHR '']'' then Inr (acc @ [v], r1)
                 else Inl SyntaxError) = Inr (vs, r)"
    by (subst (asm) parse_elements.simps) (auto split: sum.splits if_splits)
  from rest obtain c r1 where c: "skip_ws r0 = c # r1" by (auto split: list.splits)
  from skip_ws_Cons_shorter [OF c] lt have r1: "length r1 < length s" by simp
  show ?case
  proof (cases "c = CHR '',''")
    case True
    with rest c have "parse_elements (acc @ [v]) r1 = Inr (vs, r)" by simp
    from "2.IH"(2) [OF \<open>parse_value s = Inr (v, r0)\<close> refl lt c True this] r1 show ?thesis by simp
  next
    case False
    with rest c have "r = r1" by (auto split: if_splits)
    with r1 show ?thesis by simp
  qed
next
  case (3 macc s)
  from "3.prems" obtain q t0 where q: "skip_ws s = q # t0"
    by (subst (asm) parse_members.simps) (auto split: list.splits)
  from "3.prems" q have q22: "q = CHR 0x22"
    by (subst (asm) parse_members.simps) (auto split: if_splits)
  from "3.prems" q q22 obtain k r1 where k: "parse_chars t0 = Inr (k, r1)"
    by (subst (asm) parse_members.simps) (auto split: sum.splits)
  from "3.prems" q q22 k obtain c r2 where c: "skip_ws r1 = c # r2"
    by (subst (asm) parse_members.simps) (auto split: list.splits)
  from "3.prems" q q22 k c have colon: "c = CHR '':''"
    by (subst (asm) parse_members.simps) (auto split: if_splits)
  from "3.prems" q q22 k c colon obtain v r3 where v: "parse_value r2 = Inr (v, r3)"
    by (subst (asm) parse_members.simps) (auto split: sum.splits)
  from "3.prems" q q22 k c colon v have lt: "length r3 < length r2"
    by (subst (asm) parse_members.simps) (auto split: if_splits)
  from "3.prems" q q22 k c colon v lt obtain d r4 where d: "skip_ws r3 = d # r4"
    by (subst (asm) parse_members.simps) (auto split: list.splits)
  from "3.prems" q q22 k c colon v lt d
  have fin: "(d = CHR '','' \<and> parse_members (AList.update k v macc) r4 = Inr (ms, r))
      \<or> (d \<noteq> CHR '','' \<and> r = r4)"
    by (subst (asm) parse_members.simps) (auto split: if_splits)
  have chain: "length r4 < length s"
    using skip_ws_Cons_shorter [OF q] parse_chars_shorter [OF k] skip_ws_Cons_shorter [OF c] lt
      skip_ws_Cons_shorter [OF d] by simp
  from fin show ?case
  proof
    assume a: "d = CHR '','' \<and> parse_members (AList.update k v macc) r4 = Inr (ms, r)"
    from "3.IH"(2) [OF q q22 k refl c colon v refl lt d] a chain show ?thesis by simp
  next
    assume "d \<noteq> CHR '','' \<and> r = r4"
    with chain show ?thesis by simp
  qed
qed

text \<open>Hence the tests on the lengths never fail: the parser satisfies its equations without them.\<close>

lemma parse_elements_unguarded:
  "parse_elements acc s =
     (case parse_value s of
        Inl e \<Rightarrow> Inl e
      | Inr (v, r) \<Rightarrow>
          (case skip_ws r of
             [] \<Rightarrow> Inl SyntaxError
           | c # r1 \<Rightarrow>
               if c = CHR '','' then parse_elements (acc @ [v]) r1
               else if c = CHR '']'' then Inr (acc @ [v], r1)
               else Inl SyntaxError))"
  by (subst parse_elements.simps) (auto split: sum.splits dest: parse_value_shorter)

lemma parse_members_unguarded:
  "parse_members acc s =
     (case skip_ws s of
        [] \<Rightarrow> Inl SyntaxError
      | q # r \<Rightarrow>
          if q = CHR 0x22 then
            (case parse_chars r of
               Inl e \<Rightarrow> Inl e
             | Inr (k, r1) \<Rightarrow>
                 (case skip_ws r1 of
                    [] \<Rightarrow> Inl SyntaxError
                  | c # r2 \<Rightarrow>
                      if c = CHR '':'' then
                        (case parse_value r2 of
                           Inl e \<Rightarrow> Inl e
                         | Inr (v, r3) \<Rightarrow>
                             (case skip_ws r3 of
                                [] \<Rightarrow> Inl SyntaxError
                              | d # r4 \<Rightarrow>
                                  if d = CHR '','' then parse_members (AList.update k v acc) r4
                                  else if d = CHR ''}'' then Inr (AList.update k v acc, r4)
                                  else Inl SyntaxError))
                      else Inl SyntaxError))
          else Inl SyntaxError)"
  by (subst parse_members.simps)
     (simp split: list.split sum.split prod.split add: parse_value_shorter)

subsection \<open>Every error of the parser is a \<^verbatim>\<open>SyntaxError\<close>\<close>

lemma parse_chars_error: "parse_chars s = Inl e \<Longrightarrow> e = SyntaxError"
proof (induction s arbitrary: e rule: length_induct)
  case (1 s)
  show ?case
  proof (cases s)
    case Nil
    with "1.prems" show ?thesis by simp
  next
    case (Cons c r)
    have IH: "\<And>t. parse_chars t = Inl e \<Longrightarrow> length t \<le> length r \<Longrightarrow> e = SyntaxError"
      using "1.IH" Cons by (auto simp: less_Suc_eq_le)
    from "1.prems" Cons show ?thesis
      by (auto simp: cons_unit_def split: if_splits list.splits option.splits sum.splits)
         (drule IH; simp)+
  qed
qed

lemma parse_int_error: "parse_int s = Inl e \<Longrightarrow> e = SyntaxError"
  by (auto simp: parse_int_def split: list.splits if_splits)

lemma parse_frac_error: "parse_frac s = Inl e \<Longrightarrow> e = SyntaxError"
  by (auto simp: parse_frac_def Let_def split: list.splits if_splits)

lemma parse_exp_error: "parse_exp s = Inl e \<Longrightarrow> e = SyntaxError"
  by (auto simp: parse_exp_def Let_def split: list.splits if_splits)

lemma parse_number_error: "parse_number s = Inl e \<Longrightarrow> e = SyntaxError"
  unfolding parse_number_def Let_def
  by (auto split: sum.splits prod.splits dest: parse_int_error parse_frac_error parse_exp_error)

lemma parse_literal_error: "parse_literal w v s = Inl e \<Longrightarrow> e = SyntaxError"
  by (auto simp: parse_literal_def split: if_splits)


lemma parse_value_error: "parse_value s = Inl e \<Longrightarrow> e = SyntaxError"
  and parse_elements_error: "parse_elements acc s = Inl e \<Longrightarrow> e = SyntaxError"
  and parse_members_error: "parse_members macc s = Inl e \<Longrightarrow> e = SyntaxError"
proof (induction s and acc s and macc s arbitrary: e and e and e
    rule: parse_value_parse_elements_parse_members.induct)
  case (1 s)
  show ?case
  proof (cases "skip_ws s")
    case Nil
    with "1.prems" show ?thesis by (subst (asm) parse_value.simps) simp
  next
    case (Cons c t)
    consider (obj) "c = CHR ''{''" | (arr) "c = CHR ''[''" "c \<noteq> CHR ''{''"
      | (str) "c = CHR 0x22" | (lit) "c = CHR ''n'' \<or> c = CHR ''t'' \<or> c = CHR ''f''"
      | (num) "c \<noteq> CHR ''{''" "c \<noteq> CHR ''[''" "c \<noteq> CHR 0x22" "c \<noteq> CHR ''n''" "c \<noteq> CHR ''t''" "c \<noteq> CHR ''f''"
      by blast
    then show ?thesis
    proof cases
      case obj
      show ?thesis
      proof (cases "skip_ws t")
        case Nil
        with "1.prems" Cons obj show ?thesis by (subst (asm) parse_value.simps) simp
      next
        case inner: (Cons d t1)
        show ?thesis
        proof (cases "d = CHR ''}''")
          case True
          with "1.prems" Cons obj inner show ?thesis by (subst (asm) parse_value.simps) simp
        next
          case False
          with "1.prems" Cons obj inner have "parse_members [] t = Inl e"
            by (subst (asm) parse_value.simps) (auto split: sum.splits)
          from "1.IH"(1) [OF Cons obj inner False this] show ?thesis .
        qed
      qed
    next
      case arr
      show ?thesis
      proof (cases "skip_ws t")
        case Nil
        with "1.prems" Cons arr show ?thesis by (subst (asm) parse_value.simps) simp
      next
        case inner: (Cons d t1)
        show ?thesis
        proof (cases "d = CHR '']''")
          case True
          with "1.prems" Cons arr inner show ?thesis by (subst (asm) parse_value.simps) simp
        next
          case False
          with "1.prems" Cons arr inner have "parse_elements [] t = Inl e"
            by (subst (asm) parse_value.simps) (auto split: sum.splits)
          from "1.IH"(2) [OF Cons arr(2) arr(1) inner False this] show ?thesis .
        qed
      qed
    next
      case str
      with "1.prems" Cons have "parse_chars t = Inl e"
        by (subst (asm) parse_value.simps) (auto split: sum.splits)
      then show ?thesis by (rule parse_chars_error)
    next
      case lit
      with "1.prems" Cons obtain w x where "parse_literal w x (c # t) = Inl e"
        by (subst (asm) parse_value.simps) (auto split: if_splits)
      then show ?thesis by (rule parse_literal_error)
    next
      case num
      with "1.prems" Cons have "parse_number (c # t) = Inl e"
        by (subst (asm) parse_value.simps) (auto split: sum.splits)
      then show ?thesis by (rule parse_number_error)
    qed
  qed
next
  case (2 acc s)
  show ?case
  proof (cases "parse_value s")
    case (Inl e')
    with "2.prems" have "e = e'" by (subst (asm) parse_elements.simps) simp
    with "2.IH"(1) [OF Inl] show ?thesis by simp
  next
    case (Inr p)
    obtain v r0 where p: "p = (v, r0)" by (cases p)
    show ?thesis
    proof (cases "length r0 < length s")
      case False
      with "2.prems" Inr p show ?thesis by (subst (asm) parse_elements.simps) simp
    next
      case True
      show ?thesis
      proof (cases "skip_ws r0")
        case Nil
        with "2.prems" Inr p True show ?thesis by (subst (asm) parse_elements.simps) simp
      next
        case (Cons c r1)
        show ?thesis
        proof (cases "c = CHR '',''")
          case comma: True
          with "2.prems" Inr p True Cons have "parse_elements (acc @ [v]) r1 = Inl e"
            by (subst (asm) parse_elements.simps) simp
          from "2.IH"(2) [OF Inr p [symmetric] True Cons comma this] show ?thesis .
        next
          case False
          with "2.prems" Inr p True Cons show ?thesis
            by (subst (asm) parse_elements.simps) (auto split: if_splits)
        qed
      qed
    qed
  qed
next
  case (3 macc s)
  show ?case
  proof (cases "skip_ws s")
    case Nil
    with "3.prems" show ?thesis by (subst (asm) parse_members.simps) simp
  next
    case (Cons q t0)
    show ?thesis
    proof (cases "q = CHR 0x22")
      case False
      with "3.prems" Cons show ?thesis by (subst (asm) parse_members.simps) simp
    next
      case q22: True
      show ?thesis
      proof (cases "parse_chars t0")
        case (Inl e')
        with "3.prems" Cons q22 have "e = e'" by (subst (asm) parse_members.simps) simp
        with parse_chars_error [OF Inl] show ?thesis by simp
      next
        case (Inr kp)
        obtain k r1 where kp: "kp = (k, r1)" by (cases kp)
        show ?thesis
        proof (cases "skip_ws r1")
          case Nil
          with "3.prems" Cons q22 Inr kp show ?thesis by (subst (asm) parse_members.simps) simp
        next
          case c: (Cons c r2)
          show ?thesis
          proof (cases "c = CHR '':''")
            case False
            with "3.prems" Cons q22 Inr kp c show ?thesis by (subst (asm) parse_members.simps) simp
          next
            case colon: True
            show ?thesis
            proof (cases "parse_value r2")
              case v: (Inl e')
              with "3.prems" Cons q22 Inr kp c colon have "e = e'"
                by (subst (asm) parse_members.simps) simp
              with "3.IH"(1) [OF Cons q22 Inr kp [symmetric] c colon v] show ?thesis by simp
            next
              case v: (Inr vp)
              obtain v r3 where vp: "vp = (v, r3)" by (cases vp)
              show ?thesis
              proof (cases "length r3 < length r2")
                case False
                with "3.prems" Cons q22 Inr kp c colon v vp show ?thesis
                  by (subst (asm) parse_members.simps) simp
              next
                case lt: True
                show ?thesis
                proof (cases "skip_ws r3")
                  case Nil
                  with "3.prems" Cons q22 Inr kp c colon v vp lt show ?thesis
                    by (subst (asm) parse_members.simps) simp
                next
                  case d: (Cons d r4)
                  show ?thesis
                  proof (cases "d = CHR '',''")
                    case comma: True
                    with "3.prems" Cons q22 Inr kp c colon v vp lt d
                    have "parse_members (AList.update k v macc) r4 = Inl e"
                      by (subst (asm) parse_members.simps) simp
                    from "3.IH"(2) [OF Cons q22 Inr kp [symmetric] c colon v vp [symmetric] lt d comma this]
                    show ?thesis .
                  next
                    case False
                    with "3.prems" Cons q22 Inr kp c colon v vp lt d show ?thesis
                      by (subst (asm) parse_members.simps) (auto split: if_splits)
                  qed
                qed
              qed
            qed
          qed
        qed
      qed
    qed
  qed
qed

lemma JSON_parse_error: "JSON_parse s = Inl e \<Longrightarrow> e = SyntaxError"
  by (auto simp: JSON_parse_def split: sum.splits if_splits dest: parse_value_error)

subsection \<open>The initialisation of the cart\<close>

text \<open>
  Claim C3 as stated fails: when the text stored under the key is \<^verbatim>\<open>{\<close>, or
  \<^verbatim>\<open>undefined\<close>, the initialisation of the cart ends with the \<^verbatim>\<open>SyntaxError\<close>
  of \<^verbatim>\<open>JSON.parse\<close> instead of yielding the empty cart.
\<close>

theorem corrupt_snapshot_raises:
  "restore (Some ''{'') = Inl SyntaxError \<and> restore (Some ''undefined'') = Inl SyntaxError"
  by code_simp

text \<open>
  Claim C3, as amended. When the key is absent the initialisation yields the
  empty cart. When the stored text is valid JSON it yields the value of the
  text, or the empty cart if that value is falsy. Otherwise \<^verbatim>\<open>JSON.parse\<close>
  throws, the error is a \<^verbatim>\<open>SyntaxError\<close>, and it is the outcome of the
  initialisation.
\<close>

theorem restore_outcomes:
  "restore None = Inr (JObject [])
   \<and> (JSON_parse text = Inr v \<longrightarrow> restore (Some text) = Inr (if truthy v then v else JObject []))
   \<and> (JSON_parse text = Inl e \<longrightarrow> e = SyntaxError \<and> restore (Some text) = Inl SyntaxError)"
proof (intro conjI impI)
  show "restore None = Inr (JObject [])"
    by code_simp
next
  assume "JSON_parse text = Inr v"
  then show "restore (Some text) = Inr (if truthy v then v else JObject [])"
    by (simp add: restore_def)
next
  assume a: "JSON_parse text = Inl e"
  then show "e = SyntaxError" by (rule JSON_parse_error)
  with a show "restore (Some text) = Inl SyntaxError"
    by (simp add: restore_def)
qed

text \<open>The theorem at the texts \<^verbatim>\<open>{\<close>, \<^verbatim>\<open>0\<close> and \<^verbatim>\<open>[1.5, true]\<close>.\<close>

theorem restore_outcomes_witness:
  "JSON_parse ''{'' = Inl SyntaxError
   \<and> restore (Some ''{'') = Inl SyntaxError
   \<and> JSON_parse ''0'' = Inr (JNumber 0)
   \<and> restore (Some ''0'') = Inr (JObject [])
   \<and> JSON_parse ''[1.5, true]'' = Inr (JArray [JNumber 1.5, JBool True])
   \<and> restore (Some ''[1.5, true]'') = Inr (JArray [JNumber 1.5, JBool True])"
proof -
  have a: "JSON_parse ''{'' = Inl SyntaxError" by code_simp
  have b: "JSON_parse ''0'' = Inr (JNumber 0)" by code_simp
  have c: "JSON_parse ''[1.5, true]'' = Inr (JArray [JNumber 1.5, JBool True])" by code_simp
  show ?thesis
    using a b c restore_outcomes [of "''{''" _ SyntaxError]
      restore_outcomes [of "''0''" "JNumber 0"]
      restore_outcomes [of "''[1.5, true]''" "JArray [JNumber 1.5, JBool True]"]
    by (simp add: truthy_def)
qed

section \<open>The round trip of the cart snapshot\<close>

subsection \<open>Numbers\<close>

lemma of_char_digit_char: "d < 10 \<Longrightarrow> (of_char (digit_char d) :: nat) = 48 + d"
  by (simp add: digit_char_def)

lemma is_digit_digit_char: "d < 10 \<Longrightarrow> is_digit (digit_char d)"
  by (simp add: is_digit_def of_char_digit_char)

lemma digit_val_digit_char: "d < 10 \<Longrightarrow> digit_val (digit_char d) = d"
  by (simp add: digit_val_def of_char_digit_char)

lemma char_of_eq_iff: "n < 256 \<Longrightarrow> char_of n = c \<longleftrightarrow> n = (of_char c :: nat)"
proof -
  assume "n < 256"
  then have "(of_char (char_of n) :: nat) = n" by simp
  then show ?thesis by (metis char_of_char)
qed

lemma digit_char_0: "digit_char 0 = CHR ''0''"
  by (simp add: digit_char_def char_of_eq_iff)

lemma digit_char_eq_0: "d < 10 \<Longrightarrow> digit_char d = CHR ''0'' \<longleftrightarrow> d = 0"
proof -
  assume "d < 10"
  then have "(of_char (digit_char d) :: nat) = 48 + d" by (rule of_char_digit_char)
  moreover have "(of_char CHR ''0'' :: nat) = 48" by simp
  ultimately show ?thesis by (metis add_cancel_right_right digit_char_0)
qed

lemma not_digit_chars:
  "\<not> is_digit CHR ''.''" "\<not> is_digit CHR ''-''" "\<not> is_digit CHR '',''" "\<not> is_digit CHR '']''"
  "\<not> is_digit CHR ''}''" "\<not> is_digit CHR ''e''" "\<not> is_digit CHR ''E''"
  by (simp_all add: is_digit_def)

lemma show_nat_digits: "c \<in> set (show_nat n) \<Longrightarrow> is_digit c"
proof (induction n arbitrary: c rule: show_nat.induct)
  case (1 n)
  show ?case
  proof (cases "n < 10")
    case True
    with "1.prems" show ?thesis
      by (simp add: show_nat.simps [of n] is_digit_digit_char)
  next
    case False
    with "1.prems" "1.IH" show ?thesis
      by (auto simp: show_nat.simps [of n] is_digit_digit_char)
  qed
qed

lemma show_nat_nonempty: "show_nat n \<noteq> []"
  by (subst show_nat.simps) simp

lemma nat_of_digits_snoc: "nat_of_digits (ds @ [c]) = 10 * nat_of_digits ds + digit_val c"
  by (simp add: nat_of_digits_def)

lemma nat_of_digits_show_nat: "nat_of_digits (show_nat n) = n"
proof (induction n rule: show_nat.induct)
  case (1 n)
  show ?case
  proof (cases "n < 10")
    case True
    then show ?thesis
      by (simp add: show_nat.simps [of n] nat_of_digits_def digit_val_digit_char)
  next
    case False
    with "1.IH" show ?thesis
      by (simp add: show_nat.simps [of n] nat_of_digits_snoc digit_val_digit_char)
  qed
qed

lemma hd_show_nat: "0 < n \<Longrightarrow> hd (show_nat n) \<noteq> CHR ''0''"
proof (induction n rule: show_nat.induct)
  case (1 n)
  show ?case
  proof (cases "n < 10")
    case True
    with "1.prems" show ?thesis
      by (simp add: show_nat.simps [of n] digit_char_eq_0)
  next
    case False
    then have "0 < n div 10" by simp
    with False "1.IH" show ?thesis
      by (simp add: show_nat.simps [of n] show_nat_nonempty)
  qed
qed

lemma show_nat_0: "show_nat 0 = ''0''"
  by (simp add: show_nat.simps [of 0] digit_char_0)

lemma takeWhile_digits:
  assumes "\<And>c. c \<in> set ds \<Longrightarrow> is_digit c" and "rest = [] \<or> \<not> is_digit (hd rest)"
  shows "takeWhile is_digit (ds @ rest) = ds" and "dropWhile is_digit (ds @ rest) = rest"
proof -
  from assms(2) have t: "takeWhile is_digit rest = []" and d: "dropWhile is_digit rest = rest"
    by (cases rest; auto)+
  from assms(1) show "takeWhile is_digit (ds @ rest) = ds"
    by (simp add: takeWhile_append2 t)
  from assms(1) show "dropWhile is_digit (ds @ rest) = rest"
    by (simp add: dropWhile_append2 d)
qed

lemma parse_int_show_nat:
  assumes "rest = [] \<or> \<not> is_digit (hd rest)"
  shows "parse_int (show_nat n @ rest) = Inr (n, rest)"
proof (cases "n = 0")
  case True
  then show ?thesis by (simp add: show_nat_0 parse_int_def)
next
  case False
  obtain c r where cr: "show_nat n = c # r"
    using show_nat_nonempty [of n] by (cases "show_nat n") auto
  from False have "hd (show_nat n) \<noteq> CHR ''0''" by (simp add: hd_show_nat)
  with cr have c0: "c \<noteq> CHR ''0''" by simp
  have cd: "is_digit c" using show_nat_digits [of c n] cr by simp
  have tw: "takeWhile is_digit (show_nat n @ rest) = show_nat n"
    and dw: "dropWhile is_digit (show_nat n @ rest) = rest"
    using takeWhile_digits [of "show_nat n" rest] show_nat_digits assms by blast+
  have "parse_int (show_nat n @ rest) =
      Inr (nat_of_digits (takeWhile is_digit (show_nat n @ rest)), dropWhile is_digit (show_nat n @ rest))"
    using c0 cd by (simp add: parse_int_def cr)
  then show ?thesis by (simp add: tw dw nat_of_digits_show_nat)
qed


lemma foldl_digits_acc:
  "foldl (\<lambda>n c. 10 * n + digit_val c) a ds = a * 10 ^ length ds + foldl (\<lambda>n c. 10 * n + digit_val c) 0 ds"
proof -
  define f where "f = (\<lambda>n c. 10 * n + digit_val c)"
  have "foldl f a ds = a * 10 ^ length ds + foldl f 0 ds"
  proof (induction ds arbitrary: a)
    case Nil
    then show ?case by simp
  next
    case (Cons c ds)
    have "foldl f a (c # ds) = foldl f (f a c) ds" by simp
    also have "\<dots> = f a c * 10 ^ length ds + foldl f 0 ds" by (rule Cons.IH)
    also have "f a c = 10 * a + digit_val c" by (simp add: f_def)
    finally have l: "foldl f a (c # ds) = (10 * a + digit_val c) * 10 ^ length ds + foldl f 0 ds" .
    have "foldl f 0 (c # ds) = foldl f (f 0 c) ds" by simp
    also have "\<dots> = f 0 c * 10 ^ length ds + foldl f 0 ds" by (rule Cons.IH)
    also have "f 0 c = digit_val c" by (simp add: f_def)
    finally have r: "foldl f 0 (c # ds) = digit_val c * 10 ^ length ds + foldl f 0 ds" .
    show ?case unfolding l r by (simp add: algebra_simps)
  qed
  then show ?thesis by (simp add: f_def)
qed

lemma nat_of_digits_Cons: "nat_of_digits (c # ds) = digit_val c * 10 ^ length ds + nat_of_digits ds"
  using foldl_digits_acc [of "digit_val c" ds] by (simp add: nat_of_digits_def)

lemma frac_step:
  fixes x :: rat
  assumes "0 \<le> x" and "x < 1"
  shows "0 \<le> \<lfloor>x * 10\<rfloor>" and "\<lfloor>x * 10\<rfloor> < 10"
    and "0 \<le> x * 10 - of_int \<lfloor>x * 10\<rfloor>" and "x * 10 - of_int \<lfloor>x * 10\<rfloor> < 1"
proof -
  from assms show "0 \<le> \<lfloor>x * 10\<rfloor>" by simp
  from assms have "x * 10 < 10" by simp
  then show "\<lfloor>x * 10\<rfloor> < 10" by (simp add: floor_less_iff)
  show "0 \<le> x * 10 - of_int \<lfloor>x * 10\<rfloor>" by simp
  show "x * 10 - of_int \<lfloor>x * 10\<rfloor> < 1" by linarith
qed

lemma frac_digits_sound:
  "frac_digits x = Some ds \<Longrightarrow> 0 \<le> x \<Longrightarrow> x < 1 \<Longrightarrow>
   (\<forall>c\<in>set ds. is_digit c) \<and> x = of_nat (nat_of_digits ds) / 10 ^ length ds \<and> (x \<noteq> 0 \<longrightarrow> ds \<noteq> [])"
proof (induction ds arbitrary: x)
  case Nil
  then show ?case
    by (subst (asm) frac_digits.simps) (auto simp: nat_of_digits_def split: if_splits bind_splits)
next
  case (Cons c ds)
  define d where "d = \<lfloor>x * 10\<rfloor>"
  define x' where "x' = x * 10 - of_int d"
  from Cons.prems(1) have nz: "x \<noteq> 0" and rec: "frac_digits x' = Some ds" and c: "c = digit_char (nat d)"
    by (subst (asm) frac_digits.simps; auto simp: d_def x'_def split: if_splits bind_splits)+
  from frac_step [OF Cons.prems(2,3)] have d: "0 \<le> d" "d < 10" and x': "0 \<le> x'" "x' < 1"
    by (simp_all add: d_def x'_def)
  from Cons.IH [OF rec x'] have ds: "\<forall>c\<in>set ds. is_digit c"
    and val: "x' = of_nat (nat_of_digits ds) / 10 ^ length ds" by simp_all
  from d have nd: "nat d < 10" by simp
  have dv: "digit_val c = nat d" by (simp add: c digit_val_digit_char nd)
  have "x = (of_int d + x') / 10" by (simp add: x'_def)
  also have "\<dots> = (of_nat (nat d) + of_nat (nat_of_digits ds) / 10 ^ length ds) / 10"
    using d val by simp
  also have "\<dots> = of_nat (nat_of_digits (c # ds)) / 10 ^ length (c # ds)"
    by (simp add: nat_of_digits_Cons dv field_simps)
  finally have "x = of_nat (nat_of_digits (c # ds)) / 10 ^ length (c # ds)" .
  with ds c nd show ?case by (simp add: is_digit_digit_char)
qed

lemma frac_digits_decimal:
  "0 \<le> x \<Longrightarrow> x < 1 \<Longrightarrow> x = of_int m / 10 ^ k \<Longrightarrow> \<exists>ds. frac_digits x = Some ds"
proof (induction k arbitrary: x m)
  case 0
  then have "x = 0" by simp
  then show ?case by (subst frac_digits.simps) simp
next
  case (Suc k)
  show ?case
  proof (cases "x = 0")
    case True
    then show ?thesis by (subst frac_digits.simps) simp
  next
    case False
    define d where "d = \<lfloor>x * 10\<rfloor>"
    define x' where "x' = x * 10 - of_int d"
    from frac_step [OF Suc.prems(1,2)] have x': "0 \<le> x'" "x' < 1"
      by (simp_all add: d_def x'_def)
    have "x' = of_int (m - d * 10 ^ k) / 10 ^ k"
      using Suc.prems(3) by (simp add: x'_def field_simps)
    from Suc.IH [OF x' this] obtain ds where "frac_digits x' = Some ds" ..
    with False show ?thesis
      by (subst frac_digits.simps) (simp add: d_def x'_def)
  qed
qed

lemma Number_toString_decimal:
  assumes "is_decimal x"
  shows "\<exists>t. Number_toString x = Some t"
proof -
  from assms obtain m k where x: "x = of_int m / 10 ^ k" by (auto simp: is_decimal_def)
  define a where "a = \<bar>x\<bar>"
  define n where "n = nat \<lfloor>a\<rfloor>"
  have a0: "0 \<le> a" by (simp add: a_def)
  then have n: "of_nat n = (of_int \<lfloor>a\<rfloor> :: rat)" by (simp add: n_def)
  have f: "0 \<le> a - of_nat n" "a - of_nat n < 1" unfolding n by linarith+
  have "a = of_int \<bar>m\<bar> / 10 ^ k" by (simp add: a_def x)
  then have "a - of_nat n = of_int (\<bar>m\<bar> - int n * 10 ^ k) / 10 ^ k"
    by (simp add: field_simps)
  from frac_digits_decimal [OF f this] obtain ds where "frac_digits (a - of_nat n) = Some ds" ..
  then show ?thesis
    by (simp add: Number_toString_def Let_def a_def [symmetric] n_def [symmetric])
qed

lemma value_end_cases:
  assumes "value_end rest"
  shows "rest = [] \<or> \<not> is_digit (hd rest)"
    and "parse_frac rest = Inr (0, rest)"
    and "parse_exp rest = Inr (0, rest)"
  using assms
  by (auto simp: value_end_def not_digit_chars parse_frac_def parse_exp_def split: list.splits)

lemma parse_unsigned_integer:
  assumes "value_end rest"
  shows "parse_int (show_nat n @ rest) = Inr (n, rest)"
  using parse_int_show_nat value_end_cases(1) [OF assms] by simp

lemma parse_frac_digits:
  assumes "\<forall>c\<in>set ds. is_digit c" and "ds \<noteq> []" and "value_end rest"
  shows "parse_frac (''.'' @ ds @ rest) = Inr (of_nat (nat_of_digits ds) / 10 ^ length ds, rest)"
proof -
  have "takeWhile is_digit (ds @ rest) = ds" "dropWhile is_digit (ds @ rest) = rest"
    using takeWhile_digits [of ds rest] assms(1) value_end_cases(1) [OF assms(3)] by blast+
  with assms(2) show ?thesis by (simp add: parse_frac_def)
qed

lemma scale10_0: "scale10 x 0 = x"
  by (simp add: scale10_def)

lemma parse_number_unsigned:
  assumes t: "Number_toString a = Some t" and a: "0 \<le> a" and rest: "value_end rest"
  shows "\<exists>ip fr. a = of_nat ip + fr
           \<and> t \<noteq> [] \<and> is_digit (hd t)
           \<and> (\<exists>s2. parse_int (t @ rest) = Inr (ip, s2) \<and> parse_frac s2 = Inr (fr, rest))"
proof -
  define n where "n = nat \<lfloor>a\<rfloor>"
  from a have n: "of_nat n = (of_int \<lfloor>a\<rfloor> :: rat)" by (simp add: n_def)
  have f: "0 \<le> a - of_nat n" "a - of_nat n < 1" unfolding n by linarith+
  have hd_digit: "is_digit (hd (show_nat n @ u))" for u
    using show_nat_nonempty [of n] show_nat_digits [of "hd (show_nat n)" n] by simp
  from a have abs: "\<bar>a\<bar> = a" and nonneg: "\<not> a < 0" by simp_all
  show ?thesis
  proof (cases "a = of_nat n")
    case True
    from t have t_eq: "t = show_nat n"
      unfolding Number_toString_def Let_def abs n_def [symmetric] using True nonneg by simp
    have 1: "a = of_nat n + 0" using True by simp
    have 2: "t \<noteq> []" by (simp add: t_eq show_nat_nonempty)
    have 3: "is_digit (hd t)" using hd_digit [of "[]"] by (simp add: t_eq)
    have 4: "parse_int (t @ rest) = Inr (n, rest)"
      unfolding t_eq by (rule parse_unsigned_integer [OF rest])
    have 5: "parse_frac rest = Inr (0, rest)" by (rule value_end_cases(2) [OF rest])
    from 1 2 3 4 5 show ?thesis by blast
  next
    case False
    from t obtain ds where ds: "frac_digits (a - of_nat n) = Some ds"
      and t_eq: "t = show_nat n @ ''.'' @ ds"
      unfolding Number_toString_def Let_def abs n_def [symmetric] using False nonneg by auto
    from False have "a - of_nat n \<noteq> 0" by simp
    with frac_digits_sound [OF ds f]
    have dig: "\<forall>c\<in>set ds. is_digit c" and val: "a - of_nat n = of_nat (nat_of_digits ds) / 10 ^ length ds"
      and ne: "ds \<noteq> []" by blast+
    have 1: "a = of_nat n + (a - of_nat n)" by simp
    have 2: "t \<noteq> []" by (simp add: t_eq show_nat_nonempty)
    have 3: "is_digit (hd t)" using hd_digit [of "''.'' @ ds"] by (simp add: t_eq)
    have "parse_int (show_nat n @ (''.'' @ ds @ rest)) = Inr (n, ''.'' @ ds @ rest)"
      by (rule parse_int_show_nat) (simp add: not_digit_chars)
    then have 4: "parse_int (t @ rest) = Inr (n, ''.'' @ ds @ rest)" by (simp add: t_eq)
    have 5: "parse_frac (''.'' @ ds @ rest) = Inr (a - of_nat n, rest)"
      unfolding val by (rule parse_frac_digits [OF dig ne rest])
    from 1 2 3 4 5 show ?thesis by blast
  qed
qed

lemma Number_toString_sign:
  "Number_toString x = Some t \<Longrightarrow>
   \<exists>u. Number_toString \<bar>x\<bar> = Some u \<and> t = (if x < 0 then ''-'' @ u else u)"
  by (auto simp: Number_toString_def Let_def)

lemma parse_number_roundtrip:
  assumes "Number_toString x = Some t" and rest: "value_end rest"
  shows "parse_number (t @ rest) = Inr (x, rest)"
proof -
  from Number_toString_sign [OF assms(1)] obtain u
    where u: "Number_toString \<bar>x\<bar> = Some u" and t: "t = (if x < 0 then ''-'' @ u else u)" by blast
  from parse_number_unsigned [OF u _ rest] obtain ip fr s2
    where v: "\<bar>x\<bar> = of_nat ip + fr" and ne: "u \<noteq> []" and hd: "is_digit (hd u)"
      and pi: "parse_int (u @ rest) = Inr (ip, s2)" and pf: "parse_frac s2 = Inr (fr, rest)"
    by auto
  from hd have nominus: "hd u \<noteq> CHR ''-''" using not_digit_chars(2) by auto
  show ?thesis
  proof (cases "x < 0")
    case True
    with v have "x = - (of_nat ip + fr)" by simp
    with True t pi pf value_end_cases(3) [OF rest] show ?thesis
      by (simp add: parse_number_def scale10_0)
  next
    case False
    with v have "x = of_nat ip + fr" by simp
    with False t pi pf ne nominus value_end_cases(3) [OF rest] show ?thesis
      by (simp add: parse_number_def scale10_0)
  qed
qed


subsection \<open>Strings\<close>

lemma hex_val_hex_char: "d < 16 \<Longrightarrow> hex_val (hex_char d) = Some d"
  by (auto simp: hex_val_def hex_char_def Let_def)

lemma parse_chars_quote_unit:
  assumes "quote_unit u = Some a"
  shows "parse_chars (a @ t) = cons_unit u (parse_chars t)"
proof -
  consider (esc) "u = 0x22 \<or> u = 0x5C \<or> u = 0x08 \<or> u = 0x0C \<or> u = 0x0A \<or> u = 0x0D \<or> u = 0x09"
    | (ctl) "u < 0x20" "\<not> (u = 0x22 \<or> u = 0x5C \<or> u = 0x08 \<or> u = 0x0C \<or> u = 0x0A \<or> u = 0x0D \<or> u = 0x09)"
    | (raw) "\<not> u < 0x20" "u < 256" "u \<noteq> 0x22" "u \<noteq> 0x5C"
    | (big) "\<not> u < 256"
    by linarith
  then show ?thesis
  proof cases
    case esc
    with assms show ?thesis
      by (auto simp: quote_unit_def unescape_def)
  next
    case ctl
    with assms have a: "a = [CHR 0x5C] @ ''u00'' @ [hex_char (u div 16), hex_char (u mod 16)]"
      by (simp add: quote_unit_def)
    from ctl have "u div 16 < 16" "u mod 16 < 16" by simp_all
    then have h: "hex_val (hex_char (u div 16)) = Some (u div 16)"
      "hex_val (hex_char (u mod 16)) = Some (u mod 16)"
      by (simp_all add: hex_val_hex_char)
    have z: "hex_val CHR ''0'' = Some 0" by (simp add: hex_val_def)
    show ?thesis by (simp add: a h z)
  next
    case raw
    with assms have a: "a = [char_of u]" by (simp add: quote_unit_def)
    from raw have "char_of u \<noteq> CHR 0x22" "char_of u \<noteq> CHR 0x5C"
      by (simp_all add: char_of_eq_iff)
    with raw show ?thesis by (simp add: a)
  next
    case big
    with assms show ?thesis by (simp add: quote_unit_def split: if_splits)
  qed
qed

lemma parse_chars_quote_units:
  "quote_units us = Some qs \<Longrightarrow> parse_chars (qs @ CHR 0x22 # rest) = Inr (us, rest)"
proof (induction us arbitrary: qs)
  case Nil
  then show ?case by simp
next
  case (Cons u us)
  from Cons.prems obtain a b where a: "quote_unit u = Some a" and b: "quote_units us = Some b"
    and qs: "qs = a @ b"
    by (auto split: option.splits)
  have "parse_chars (qs @ CHR 0x22 # rest) = cons_unit u (parse_chars (b @ CHR 0x22 # rest))"
    using parse_chars_quote_unit [OF a, of "b @ CHR 0x22 # rest"] by (simp add: qs)
  also have "\<dots> = Inr (u # us, rest)"
    by (simp add: Cons.IH [OF b] cons_unit_def)
  finally show ?case .
qed

lemma QuoteJSONString_parse:
  "QuoteJSONString us = Some q \<Longrightarrow> \<exists>qs. q = CHR 0x22 # qs \<and> parse_chars (qs @ rest) = Inr (us, rest)"
  by (auto simp: QuoteJSONString_def parse_chars_quote_units)

lemma skip_ws_start: "s \<noteq> [] \<Longrightarrow> \<not> is_ws (hd s) \<Longrightarrow> skip_ws (s @ r) = s @ r"
  by (cases s) (simp_all add: skip_ws_def)

lemma value_start_not_ws: "value_start c \<Longrightarrow> \<not> is_ws c"
  by (auto simp: value_start_def is_ws_def is_digit_def)

lemma value_start_not_close: "value_start c \<Longrightarrow> c \<noteq> CHR '']'' \<and> c \<noteq> CHR ''}''"
  by (auto simp: value_start_def is_digit_def)

lemma Number_toString_start: "Number_toString x = Some t \<Longrightarrow> t \<noteq> [] \<and> value_start (hd t)"
proof -
  assume t: "Number_toString x = Some t"
  from Number_toString_sign [OF t] obtain u
    where u: "Number_toString \<bar>x\<bar> = Some u" and t_eq: "t = (if x < 0 then ''-'' @ u else u)" by blast
  from parse_number_unsigned [OF u, of "[]"] have "u \<noteq> []" "is_digit (hd u)"
    by (auto simp: value_end_def)
  with t_eq show ?thesis by (auto simp: value_start_def)
qed

lemma JSON_stringify_start: "JSON_stringify v = Some t \<Longrightarrow> t \<noteq> [] \<and> value_start (hd t)"
proof (cases v)
  case (JNumber x)
  then show "JSON_stringify v = Some t \<Longrightarrow> t \<noteq> [] \<and> value_start (hd t)"
    using Number_toString_start by simp
qed (auto simp: value_start_def QuoteJSONString_def split: if_splits)


subsection \<open>Values\<close>

lemma roundtripsD:
  "roundtrips v \<Longrightarrow> JSON_stringify v = Some t \<Longrightarrow> keys_distinct v \<Longrightarrow> value_end rest \<Longrightarrow>
   parse_value (t @ rest) = Inr (v, rest)"
  by (simp add: roundtrips_def)

lemma value_end_simps: "value_end (CHR '','' # r)" "value_end (CHR '']'' # r)" "value_end (CHR ''}'' # r)" "value_end []"
  by (simp_all add: value_end_def)

lemma skip_ws_delim:
  "skip_ws (CHR '','' # r) = CHR '','' # r" "skip_ws (CHR '']'' # r) = CHR '']'' # r"
  "skip_ws (CHR ''}'' # r) = CHR ''}'' # r" "skip_ws (CHR '':'' # r) = CHR '':'' # r"
  "skip_ws (CHR 0x22 # r) = CHR 0x22 # r"
  by (simp_all add: skip_ws_def is_ws_def)

lemma parse_elements_roundtrip:
  assumes "\<And>v. v \<in> set vs \<Longrightarrow> roundtrips v \<and> keys_distinct v"
    and "those (map JSON_stringify vs) = Some parts" and "vs \<noteq> []"
  shows "parse_elements acc (join_commas parts @ CHR '']'' # rest) = Inr (acc @ vs, rest)"
  using assms
proof (induction vs arbitrary: acc parts)
  case Nil
  then show ?case by simp
next
  case (Cons v ws)
  from Cons.prems(2) obtain p qs where p: "JSON_stringify v = Some p"
    and qs: "those (map JSON_stringify ws) = Some qs" and parts: "parts = p # qs"
    by (auto split: option.splits)
  from Cons.prems(1) have v: "roundtrips v" "keys_distinct v" by simp_all
  from JSON_stringify_start [OF p] have pne: "p \<noteq> []" by simp
  show ?case
  proof (cases ws)
    case Nil
    with qs have "qs = []" by simp
    then have shape: "join_commas parts @ CHR '']'' # rest = p @ CHR '']'' # rest"
      by (simp add: parts)
    have pv: "parse_value (p @ CHR '']'' # rest) = Inr (v, CHR '']'' # rest)"
      by (rule roundtripsD [OF v(1) p v(2)]) (rule value_end_simps)
    show ?thesis
      unfolding shape
      by (subst parse_elements.simps) (simp add: pv pne skip_ws_delim Nil)
  next
    case (Cons w ws')
    with qs obtain q qs' where qs_eq: "qs = q # qs'" by (auto split: option.splits)
    then have shape: "join_commas parts @ CHR '']'' # rest
        = p @ CHR '','' # (join_commas qs @ CHR '']'' # rest)"
      by (simp add: parts)
    have pv: "parse_value (p @ CHR '','' # (join_commas qs @ CHR '']'' # rest))
        = Inr (v, CHR '','' # (join_commas qs @ CHR '']'' # rest))"
      by (rule roundtripsD [OF v(1) p v(2)]) (rule value_end_simps)
    have IH: "parse_elements (acc @ [v]) (join_commas qs @ CHR '']'' # rest) = Inr ((acc @ [v]) @ ws, rest)"
      using Cons.prems(1) qs Cons by (intro Cons.IH) simp_all
    show ?thesis
      unfolding shape
      by (subst parse_elements.simps) (simp add: pv pne skip_ws_delim IH)
  qed
qed

lemma fold_update_fresh:
  "k \<notin> fst ` set acc \<Longrightarrow> AList.update k v acc = acc @ [(k, v)]"
  by (induction acc) auto

lemma parse_members_roundtrip:
  assumes "\<And>m. m \<in> set ms \<Longrightarrow> roundtrips (snd m) \<and> keys_distinct (snd m)"
    and "those (map (\<lambda>m. case QuoteJSONString (fst m) of
                             None \<Rightarrow> None
                           | Some k \<Rightarrow> map_option (\<lambda>t. k @ '':'' @ t) (JSON_stringify (snd m))) ms) = Some parts"
    and "ms \<noteq> []" and "distinct (map fst (acc @ ms))"
  shows "parse_members acc (join_commas parts @ CHR ''}'' # rest) = Inr (acc @ ms, rest)"
  using assms
proof (induction ms arbitrary: acc parts)
  case Nil
  then show ?case by simp
next
  case (Cons m ws)
  obtain k v where m: "m = (k, v)" by (cases m)
  from Cons.prems(2) obtain qk tv qs where qk: "QuoteJSONString k = Some qk"
    and tv: "JSON_stringify v = Some tv"
    and qs: "those (map (\<lambda>m. case QuoteJSONString (fst m) of
                             None \<Rightarrow> None
                           | Some k \<Rightarrow> map_option (\<lambda>t. k @ '':'' @ t) (JSON_stringify (snd m))) ws) = Some qs"
    and parts: "parts = (qk @ '':'' @ tv) # qs"
    by (auto simp: m split: option.splits)
  from Cons.prems(1) [of m] have v: "roundtrips v" "keys_distinct v" by (simp_all add: m)
  from JSON_stringify_start [OF tv] have tne: "tv \<noteq> []" by simp
  from Cons.prems(4) have fresh: "k \<notin> fst ` set acc" by (auto simp: m)
  then have upd: "AList.update k v acc = acc @ [(k, v)]" by (rule fold_update_fresh)
  have key: "\<exists>qs'. qk = CHR 0x22 # qs' \<and> parse_chars (qs' @ u) = Inr (k, u)" for u
    by (rule QuoteJSONString_parse [OF qk])
  show ?case
  proof (cases ws)
    case Nil
    with qs have "qs = []" by simp
    define tail where "tail = CHR ''}'' # rest"
    from key [of "CHR '':'' # tv @ tail"] obtain qs' where qk_eq: "qk = CHR 0x22 # qs'"
      and pk: "parse_chars (qs' @ CHR '':'' # tv @ tail) = Inr (k, CHR '':'' # tv @ tail)" by blast
    have shape: "join_commas parts @ CHR ''}'' # rest = CHR 0x22 # (qs' @ CHR '':'' # tv @ tail)"
      by (simp add: parts \<open>qs = []\<close> qk_eq tail_def)
    have pv: "parse_value (tv @ tail) = Inr (v, tail)"
      unfolding tail_def by (rule roundtripsD [OF v(1) tv v(2)]) (rule value_end_simps)
    show ?thesis
      unfolding shape
      by (subst parse_members.simps)
         (simp add: skip_ws_delim pk pv tne, simp add: tail_def skip_ws_delim upd Nil m)
  next
    case (Cons w ws')
    with qs obtain q qs'' where qs_eq: "qs = q # qs''" by (auto split: option.splits)
    define tail where "tail = CHR '','' # (join_commas qs @ CHR ''}'' # rest)"
    from key [of "CHR '':'' # tv @ tail"] obtain qs' where qk_eq: "qk = CHR 0x22 # qs'"
      and pk: "parse_chars (qs' @ CHR '':'' # tv @ tail) = Inr (k, CHR '':'' # tv @ tail)" by blast
    have shape: "join_commas parts @ CHR ''}'' # rest = CHR 0x22 # (qs' @ CHR '':'' # tv @ tail)"
      by (simp add: parts qs_eq qk_eq tail_def)
    have pv: "parse_value (tv @ tail) = Inr (v, tail)"
      unfolding tail_def by (rule roundtripsD [OF v(1) tv v(2)]) (rule value_end_simps)
    have IH: "parse_members (acc @ [m]) (join_commas qs @ CHR ''}'' # rest) = Inr ((acc @ [m]) @ ws, rest)"
      using Cons.prems(1,4) qs Cons by (intro Cons.IH) simp_all
    show ?thesis
      unfolding shape
      by (subst parse_members.simps)
         (simp add: skip_ws_delim pk pv tne, simp add: tail_def skip_ws_delim upd IH [unfolded m] m)
  qed
qed


lemma Number_toString_hd:
  "Number_toString x = Some t \<Longrightarrow> t \<noteq> [] \<and> (is_digit (hd t) \<or> hd t = CHR ''-'')"
proof -
  assume t: "Number_toString x = Some t"
  from Number_toString_sign [OF t] obtain u
    where u: "Number_toString \<bar>x\<bar> = Some u" and t_eq: "t = (if x < 0 then ''-'' @ u else u)" by blast
  from parse_number_unsigned [OF u, of "[]"] have "u \<noteq> []" "is_digit (hd u)"
    by (auto simp: value_end_def)
  with t_eq show ?thesis by auto
qed

lemma parse_value_number:
  assumes "is_digit c \<or> c = CHR ''-''"
  shows "parse_value (c # r) =
           (case parse_number (c # r) of Inl e \<Rightarrow> Inl e | Inr (x, r1) \<Rightarrow> Inr (JNumber x, r1))"
proof -
  from assms have "\<not> is_ws c" "c \<noteq> CHR ''{''" "c \<noteq> CHR ''[''" "c \<noteq> CHR 0x22"
    "c \<noteq> CHR ''n''" "c \<noteq> CHR ''t''" "c \<noteq> CHR ''f''"
    by (auto simp: is_digit_def is_ws_def)
  then show ?thesis
    by (subst parse_value.simps) (simp add: skip_ws_def)
qed

lemma roundtrips_all: "roundtrips v"
proof (induction v)
  case JNull
  show ?case
    unfolding roundtrips_def
    by (subst parse_value.simps) (simp add: skip_ws_def is_ws_def parse_literal_def)
next
  case (JBool b)
  show ?case
    unfolding roundtrips_def
    by (subst parse_value.simps) (simp add: skip_ws_def is_ws_def parse_literal_def)
next
  case (JNumber x)
  show ?case
    unfolding roundtrips_def
  proof (intro allI impI)
    fix t rest
    assume t: "JSON_stringify (JNumber x) = Some t" and rest: "value_end rest"
    then have nt: "Number_toString x = Some t" by simp
    from Number_toString_hd [OF nt] obtain c r where cr: "t = c # r"
      and c: "is_digit c \<or> c = CHR ''-''" by (cases t) auto
    have "parse_number (t @ rest) = Inr (x, rest)"
      by (rule parse_number_roundtrip [OF nt rest])
    then show "parse_value (t @ rest) = Inr (JNumber x, rest)"
      using parse_value_number [OF c, of "r @ rest"] by (simp add: cr)
  qed
next
  case (JString us)
  show ?case
    unfolding roundtrips_def
  proof (intro allI impI)
    fix t rest
    assume "JSON_stringify (JString us) = Some t"
    then have "QuoteJSONString us = Some t" by simp
    from QuoteJSONString_parse [OF this, of rest] obtain qs where t: "t = CHR 0x22 # qs"
      and p: "parse_chars (qs @ rest) = Inr (us, rest)" by blast
    show "parse_value (t @ rest) = Inr (JString us, rest)"
      by (subst parse_value.simps) (simp add: t skip_ws_delim p)
  qed
next
  case (JArray vs)
  show ?case
    unfolding roundtrips_def
  proof (intro allI impI)
    fix t rest
    assume t: "JSON_stringify (JArray vs) = Some t" and kd: "keys_distinct (JArray vs)"
    from t obtain parts where parts: "those (map JSON_stringify vs) = Some parts"
      and t_eq: "t = ''['' @ join_commas parts @ '']''" by auto
    show "parse_value (t @ rest) = Inr (JArray vs, rest)"
    proof (cases vs)
      case Nil
      with parts have "parts = []" by simp
      then show ?thesis
        by (subst parse_value.simps) (simp add: t_eq skip_ws_def is_ws_def Nil)
    next
      case (Cons v ws)
      have each: "\<And>v. v \<in> set vs \<Longrightarrow> roundtrips v \<and> keys_distinct v"
        using JArray.IH kd by (auto simp: list_all_iff)
      have el: "parse_elements [] (join_commas parts @ CHR '']'' # rest) = Inr ([] @ vs, rest)"
        by (rule parse_elements_roundtrip [OF each parts]) (simp_all add: Cons)
      from Cons parts obtain p qs where pq: "parts = p # qs" and p: "JSON_stringify v = Some p"
        by (auto split: option.splits)
      from JSON_stringify_start [OF p] obtain c p' where p_eq: "p = c # p'" and c: "value_start c"
        by (cases p) auto
      obtain body where body: "join_commas parts @ CHR '']'' # rest = c # body"
        by (cases qs) (simp_all add: pq p_eq)
      from c have c_ok: "\<not> is_ws c" "c \<noteq> CHR '']''"
        using value_start_not_ws value_start_not_close by auto
      show ?thesis
        using el c_ok unfolding body
        by (subst parse_value.simps) (simp add: t_eq skip_ws_def is_ws_def body)
    qed
  qed
next
  case (JObject ms)
  show ?case
    unfolding roundtrips_def
  proof (intro allI impI)
    fix t rest
    assume t: "JSON_stringify (JObject ms) = Some t" and kd: "keys_distinct (JObject ms)"
    from t obtain parts where parts: "those (map (\<lambda>m. case QuoteJSONString (fst m) of
                             None \<Rightarrow> None
                           | Some k \<Rightarrow> map_option (\<lambda>t. k @ '':'' @ t) (JSON_stringify (snd m))) ms) = Some parts"
      and t_eq: "t = ''{'' @ join_commas parts @ ''}''" by auto
    show "parse_value (t @ rest) = Inr (JObject ms, rest)"
    proof (cases ms)
      case Nil
      with parts have "parts = []" by simp
      then show ?thesis
        by (subst parse_value.simps) (simp add: t_eq skip_ws_def is_ws_def Nil)
    next
      case (Cons m ws)
      have each: "\<And>m. m \<in> set ms \<Longrightarrow> roundtrips (snd m) \<and> keys_distinct (snd m)"
      proof -
        fix m assume m: "m \<in> set ms"
        obtain k v where kv: "m = (k, v)" by (cases m)
        with m JObject.IH [of m v] have "roundtrips v" by simp
        moreover from kd m kv have "keys_distinct v" by (auto simp: list_all_iff)
        ultimately show "roundtrips (snd m) \<and> keys_distinct (snd m)" by (simp add: kv)
      qed
      from kd have dist: "distinct (map fst ([] @ ms))" by simp
      have mem: "parse_members [] (join_commas parts @ CHR ''}'' # rest) = Inr ([] @ ms, rest)"
      proof (rule parse_members_roundtrip [OF each parts _ dist])
        from Cons show "ms \<noteq> []" by simp
      qed
      from Cons parts obtain p qs qk where pq: "parts = p # qs" and qk: "QuoteJSONString (fst m) = Some qk"
        and p: "p = qk @ '':'' @ the (JSON_stringify (snd m))"
        by (auto split: option.splits)
      from qk obtain qk' where "qk = CHR 0x22 # qk'" by (auto simp: QuoteJSONString_def)
      with p obtain body where body: "join_commas parts @ CHR ''}'' # rest = CHR 0x22 # body"
        by (cases qs) (simp_all add: pq)
      show ?thesis
        using mem unfolding body
        by (subst parse_value.simps) (simp add: t_eq skip_ws_def is_ws_def body)
    qed
  qed
qed

lemma JSON_parse_stringify:
  assumes "JSON_stringify v = Some t" and "keys_distinct v"
  shows "JSON_parse t = Inr v"
proof -
  have "parse_value (t @ []) = Inr (v, [])"
    by (rule roundtripsD [OF roundtrips_all assms]) (rule value_end_simps)
  then show ?thesis by (simp add: JSON_parse_def skip_ws_def)
qed


subsection \<open>The cart\<close>

lemma js_inject: "js a = js b \<longleftrightarrow> a = b"
  unfolding js_def by (simp add: inj_map_eq_map inj_of_char comp_def flip: map_map)

lemma of_char_less_256: "(of_char c :: nat) < 256"
proof -
  have "(of_char (char_of (of_char c :: nat)) :: nat) = of_char c mod 256"
    by (rule of_char_of)
  then have "(of_char c :: nat) = of_char c mod 256" by simp
  then show ?thesis by (metis mod_less_divisor zero_less_numeral)
qed

lemma quote_units_js: "\<exists>qs. quote_units (js s) = Some qs"
proof (induction s)
  case Nil
  then show ?case by (simp add: js_def)
next
  case (Cons c s)
  have "quote_unit (of_char c) \<noteq> None"
    using of_char_less_256 [of c] by (simp add: quote_unit_def)
  with Cons show ?case by (auto simp: js_def)
qed

lemma QuoteJSONString_js: "\<exists>q. QuoteJSONString (js s) = Some q"
  using quote_units_js [of s] by (auto simp: QuoteJSONString_def)

lemma is_decimal_of_int: "is_decimal (of_int q)"
  unfolding is_decimal_def by (intro exI [of _ q] exI [of _ 0]) simp

lemma stringify_line:
  assumes "is_decimal (price l)"
  shows "\<exists>t. JSON_stringify (line_json l) = Some t"
proof -
  obtain qn where qn: "QuoteJSONString (js ''name'') = Some qn" using QuoteJSONString_js by blast
  obtain qp where qp: "QuoteJSONString (js ''price'') = Some qp" using QuoteJSONString_js by blast
  obtain qq where qq: "QuoteJSONString (js ''quantity'') = Some qq" using QuoteJSONString_js by blast
  obtain tn where tn: "QuoteJSONString (js (name l)) = Some tn" using QuoteJSONString_js by blast
  obtain tp where tp: "Number_toString (price l) = Some tp"
    using Number_toString_decimal [OF assms] by blast
  obtain tq where tq: "Number_toString (of_int (quantity l)) = Some tq"
    using Number_toString_decimal [OF is_decimal_of_int] by blast
  show ?thesis
    by (simp add: line_json_def qn qp qq tn tp tq)
qed

lemma stringify_members:
  assumes "\<And>i l. (i, l) \<in> set c \<Longrightarrow> is_decimal (price l)"
  shows "\<exists>parts. those (map (\<lambda>m. case QuoteJSONString (fst m) of
                             None \<Rightarrow> None
                           | Some k \<Rightarrow> map_option (\<lambda>t. k @ '':'' @ t) (JSON_stringify (snd m)))
                    (map (\<lambda>(i, l). (js i, line_json l)) c)) = Some parts"
  using assms
proof (induction c)
  case Nil
  then show ?case by simp
next
  case (Cons e c)
  obtain i l where e: "e = (i, l)" by (cases e)
  from Cons.prems [of i l] have "is_decimal (price l)" by (simp add: e)
  from stringify_line [OF this] obtain t where t: "JSON_stringify (line_json l) = Some t" ..
  obtain q where q: "QuoteJSONString (js i) = Some q" using QuoteJSONString_js by blast
  from Cons.IH Cons.prems obtain parts where "those (map (\<lambda>m. case QuoteJSONString (fst m) of
                             None \<Rightarrow> None
                           | Some k \<Rightarrow> map_option (\<lambda>t. k @ '':'' @ t) (JSON_stringify (snd m)))
                    (map (\<lambda>(i, l). (js i, line_json l)) c)) = Some parts"
    by auto
  then show ?case by (simp add: e t q)
qed

lemma stringify_cart:
  assumes "\<And>i l. (i, l) \<in> set c \<Longrightarrow> is_decimal (price l)"
  shows "\<exists>t. saveCart c = Some t"
  using stringify_members [OF assms] by (auto simp: saveCart_def cart_json_def)

lemma keys_distinct_line: "keys_distinct (line_json l)"
  by (simp add: line_json_def js_def)

lemma keys_distinct_cart:
  assumes "distinct (map fst c)"
  shows "keys_distinct (cart_json c)"
proof -
  have k: "map fst (map (\<lambda>(i, l). (js i, line_json l)) c) = map js (map fst c)"
    by (induction c) auto
  have d: "distinct (map js (map fst c))"
    using assms by (simp add: distinct_map inj_on_def js_inject)
  have l: "list_all (\<lambda>m. keys_distinct (snd m)) (map (\<lambda>(i, l). (js i, line_json l)) c)"
    by (induction c) (auto simp: keys_distinct_line)
  show ?thesis
    unfolding cart_json_def keys_distinct.simps k using d l by (intro conjI)
qed

lemma line_json_inject: "line_json l = line_json l' \<Longrightarrow> l = l'"
  by (cases l, cases l') (simp add: line_json_def js_inject)

lemma cart_json_inject: "cart_json c = cart_json c' \<Longrightarrow> c = c'"
proof (induction c arbitrary: c')
  case Nil
  then show ?case by (simp add: cart_json_def)
next
  case (Cons e c)
  from Cons.prems obtain e' d where c': "c' = e' # d" by (cases c') (auto simp: cart_json_def)
  with Cons.prems have "e = e'" and "cart_json c = cart_json d"
    by (auto simp: cart_json_def js_inject dest: line_json_inject split: prod.splits)
  with Cons.IH c' show ?case by simp
qed

lemma set_update_subset: "set (AList.update k v c) \<subseteq> insert (k, v) (set c)"
  by (induction c) auto

lemma set_delete_subset: "set (AList.delete k c) \<subseteq> set c"
  by (auto simp: AList.delete_eq)

lemma decimal_cart_update:
  "decimal_cart c \<Longrightarrow> is_decimal (price l) \<Longrightarrow> decimal_cart (AList.update i l c)"
  using set_update_subset [of i l c] by (auto simp: decimal_cart_def)

lemma decimal_cart_delete: "decimal_cart c \<Longrightarrow> decimal_cart (AList.delete i c)"
  using set_delete_subset [of i c] by (auto simp: decimal_cart_def)

lemma decimal_cart_map_of: "decimal_cart c \<Longrightarrow> map_of c i = Some l \<Longrightarrow> is_decimal (price l)"
  by (auto simp: decimal_cart_def dest: map_of_SomeD)

lemma decimal_cart_step:
  assumes "decimal_cart c" and "case x of Add i n p \<Rightarrow> is_decimal p | _ \<Rightarrow> True"
  shows "decimal_cart (apply_cart_op x c)"
proof (cases x)
  case (Add i n p)
  with assms show ?thesis
    by (auto simp: add_to_cart_btn_click_def split: option.splits
        intro!: decimal_cart_update dest: decimal_cart_map_of)
next
  case (Increase i)
  with assms show ?thesis
    by (auto simp: increase_qty_click_def split: option.splits
        intro!: decimal_cart_update dest: decimal_cart_map_of)
next
  case (Decrease i)
  with assms show ?thesis
    by (auto simp: decrease_qty_click_def Let_def split: option.splits
        intro!: decimal_cart_update decimal_cart_delete dest: decimal_cart_map_of)
next
  case (Remove i)
  with assms show ?thesis
    by (auto simp: remove_item_click_def split: option.splits intro!: decimal_cart_delete)
qed

lemma decimal_cart_run:
  "decimal_cart c \<Longrightarrow> decimal_prices ops \<Longrightarrow> decimal_cart (run_cart_ops ops c)"
  unfolding run_cart_ops_def decimal_prices_def
  by (induction ops arbitrary: c) (simp_all add: decimal_cart_step)

text \<open>
  Claim C9. For every cart reached from the empty cart by add, increase,
  decrease and remove operations whose prices are decimal fractions (as
  every finite JavaScript number is), empty or not, \<^verbatim>\<open>saveCart\<close> stores a text
  and the initialisation of the cart from that text yields the cart again:
  the object with the same ids and, for each id, the same name, price and
  quantity. The third conjunct says that only this cart has that object.
\<close>

theorem snapshot_round_trip:
  assumes "decimal_prices ops"
  shows "\<exists>stored. saveCart (run_cart_ops ops []) = Some stored
           \<and> restore (Some stored) = Inr (cart_json (run_cart_ops ops []))
           \<and> (\<forall>c'. cart_json c' = cart_json (run_cart_ops ops []) \<longrightarrow> c' = run_cart_ops ops [])"
proof -
  define c where "c = run_cart_ops ops []"
  have "decimal_cart c"
    unfolding c_def by (rule decimal_cart_run [OF _ assms]) (simp add: decimal_cart_def)
  then obtain stored where stored: "saveCart c = Some stored"
    using stringify_cart [of c] by (auto simp: decimal_cart_def)
  have "distinct (map fst c)"
    unfolding c_def by (rule distinct_keys_run) simp
  then have "keys_distinct (cart_json c)" by (rule keys_distinct_cart)
  with stored have "JSON_parse stored = Inr (cart_json c)"
    by (intro JSON_parse_stringify) (simp_all add: saveCart_def)
  then have "restore (Some stored) = Inr (cart_json c)"
    by (simp add: restore_def truthy_def cart_json_def)
  with stored show ?thesis
    unfolding c_def [symmetric] by (auto dest: cart_json_inject)
qed

lemma is_decimal_example: "is_decimal (999 / 100)" "is_decimal 5"
  unfolding is_decimal_def
  by (rule exI [of _ 999], rule exI [of _ 2], simp) (rule exI [of _ 5], rule exI [of _ 0], simp)

text \<open>The theorem at a cart with two Widgets and one Gadget.\<close>

theorem snapshot_round_trip_witness:
  "decimal_prices [Add ''X1'' ''Widget'' 9.99, Add ''X2'' ''Gadget'' 5, Add ''X1'' ''Widget'' 9.99]
   \<and> saveCart (run_cart_ops [Add ''X1'' ''Widget'' 9.99, Add ''X2'' ''Gadget'' 5, Add ''X1'' ''Widget'' 9.99] []) \<noteq> None
   \<and> restore (saveCart (run_cart_ops [Add ''X1'' ''Widget'' 9.99, Add ''X2'' ''Gadget'' 5, Add ''X1'' ''Widget'' 9.99] []))
       = Inr (cart_json [(''X1'', \<lparr>name = ''Widget'', price = 9.99, quantity = 2\<rparr>),
                         (''X2'', \<lparr>name = ''Gadget'', price = 5, quantity = 1\<rparr>)])"
proof -
  have d: "decimal_prices [Add ''X1'' ''Widget'' 9.99, Add ''X2'' ''Gadget'' 5, Add ''X1'' ''Widget'' 9.99]"
    by (simp add: decimal_prices_def is_decimal_example)
  have r: "run_cart_ops [Add ''X1'' ''Widget'' 9.99, Add ''X2'' ''Gadget'' 5, Add ''X1'' ''Widget'' 9.99] []
      = [(''X1'', \<lparr>name = ''Widget'', price = 9.99, quantity = 2\<rparr>),
         (''X2'', \<lparr>name = ''Gadget'', price = 5, quantity = 1\<rparr>)]"
    by (simp add: run_cart_ops_def add_to_cart_btn_click_def)
  from snapshot_round_trip [OF d] d show ?thesis
    unfolding r by auto
qed

end
